theory Spec2Isabelle
  imports Complex_Main "HOL-Library.AList"
begin

section \<open>Strings\<close>

text \<open>
  A JavaScript string is modelled as a \<open>string\<close>: one \<open>char\<close> per code unit, for the
  code units below 256. The character classes below are the ones the regular
  expressions and string methods of the source use, cut down to that range.
\<close>

definition nl :: char where
  "nl = CHR 0x0A"

definition isSpace :: "char \<Rightarrow> bool" where
  \<comment> \<open>the class \<open>\s\<close>, which is also what \<open>trim\<close> strips\<close>
  "isSpace c = (c = CHR 0x09 \<or> c = CHR 0x0A \<or> c = CHR 0x0B \<or> c = CHR 0x0C
                 \<or> c = CHR 0x0D \<or> c = CHR 0x20 \<or> c = CHR 0xA0)"

definition isLineTerminator :: "char \<Rightarrow> bool" where
  \<comment> \<open>what \<open>.\<close> does not match\<close>
  "isLineTerminator c = (c = CHR 0x0A \<or> c = CHR 0x0D)"

definition isWordChar :: "char \<Rightarrow> bool" where
  \<comment> \<open>the class \<open>\w\<close>\<close>
  "isWordChar c = (let n = (of_char c :: nat) in
     (48 \<le> n \<and> n \<le> 57) \<or> (65 \<le> n \<and> n \<le> 90) \<or> n = 95 \<or> (97 \<le> n \<and> n \<le> 122))"

definition toLowerChar :: "char \<Rightarrow> char" where
  "toLowerChar c = (let n = (of_char c :: nat) in
     if (65 \<le> n \<and> n \<le> 90) \<or> (192 \<le> n \<and> n \<le> 222 \<and> n \<noteq> 215)
     then char_of (n + 32) else c)"

definition toLowerCase :: "string \<Rightarrow> string" where
  "toLowerCase s = map toLowerChar s"

definition trimStart :: "string \<Rightarrow> string" where
  "trimStart s = dropWhile isSpace s"

definition trim :: "string \<Rightarrow> string" where
  "trim s = rev (dropWhile isSpace (rev (dropWhile isSpace s)))"

fun startsWith :: "string \<Rightarrow> string \<Rightarrow> bool" where
  "startsWith s [] = True"
| "startsWith [] (p # ps) = False"
| "startsWith (c # cs) (p # ps) = (c = p \<and> startsWith cs ps)"

fun includesStr :: "string \<Rightarrow> string \<Rightarrow> bool" where
  "includesStr [] k = (k = [])"
| "includesStr (c # cs) k = (startsWith (c # cs) k \<or> includesStr cs k)"

fun splitOn :: "char \<Rightarrow> string \<Rightarrow> string \<Rightarrow> string list" where
  \<comment> \<open>\<open>s.split(d)\<close> is \<open>splitOn d [] s\<close>; the second argument is the piece being read\<close>
  "splitOn d cur [] = [cur]"
| "splitOn d cur (c # cs) =
     (if c = d then cur # splitOn d [] cs else splitOn d (cur @ [c]) cs)"

fun splitSpaces :: "bool \<Rightarrow> string \<Rightarrow> string \<Rightarrow> string list" where
  \<comment> \<open>\<open>s.split(/\s+/)\<close> is \<open>splitSpaces False [] s\<close>; the flag says that the separator
      being read has already closed a piece\<close>
  "splitSpaces inSep cur [] = [cur]"
| "splitSpaces inSep cur (c # cs) =
     (if isSpace c
      then (if inSep then splitSpaces True cur cs else cur # splitSpaces True [] cs)
      else splitSpaces False (cur @ [c]) cs)"

fun joinWith :: "string \<Rightarrow> string list \<Rightarrow> string" where
  "joinWith sep [] = []"
| "joinWith sep [x] = x"
| "joinWith sep (x # y # ys) = x @ sep @ joinWith sep (y # ys)"

definition sliceLast :: "nat \<Rightarrow> 'a list \<Rightarrow> 'a list" where
  \<comment> \<open>\<open>xs.slice(-n)\<close>\<close>
  "sliceLast n xs = drop (length xs - n) xs"

definition truthy :: "string option \<Rightarrow> bool" where
  \<comment> \<open>a \<open>string | null | undefined\<close> in a condition\<close>
  "truthy v = (case v of None \<Rightarrow> False | Some s \<Rightarrow> s \<noteq> [])"

definition orElse :: "string option \<Rightarrow> string \<Rightarrow> string" where
  \<comment> \<open>\<open>v || d\<close> with a string default\<close>
  "orElse v d = (case v of None \<Rightarrow> d | Some s \<Rightarrow> if s = [] then d else s)"

fun uniq :: "'a list \<Rightarrow> 'a list" where
  \<comment> \<open>\<open>[...new Set(xs)]\<close>: the first occurrence of each element, in order\<close>
  "uniq [] = []"
| "uniq (x # xs) = x # uniq (filter (\<lambda>y. y \<noteq> x) xs)"

section \<open>Data model (shared/schema.ts)\<close>

record message =
  msg_id :: nat
  role :: string
  content :: string
  location :: "string option"

record settings =
  geminiApiKey :: "string option"
  behaviorPrompt :: string
  frameworkTemplate :: string
  characterPreset :: string
  lore :: string

record memory_log =
  log_id :: nat
  log_content :: string
  log_embedding :: "string option"
  log_location :: "string option"
  log_summary :: "string option"
  log_type :: "string option"
  importance :: int

section \<open>Providers, errors and the server state\<close>

text \<open>
  A thrown value is an \<open>error\<close>: its message, and whether it carries a provider
  response that reports a safety block. The language model and the embedding model
  are oracles over a world \<open>'w\<close> that each call may change, so that two calls with the
  same request may answer differently. Every call is recorded in \<open>calls\<close>.
\<close>

datatype error = Error (message: string) (safetyBlock: bool)

datatype request = Prompt string | Contents "(string \<times> string) list"

record gen_response =
  promptBlocked :: bool
  candidateBlocked :: bool
  responseText :: "error + string"

datatype call =
    EmbedCall string string
  | GenerateCall string string request

record 'w provider =
  embedContent :: "string \<Rightarrow> string \<Rightarrow> 'w \<Rightarrow> (error + real list) \<times> 'w"
  generateContent :: "string \<Rightarrow> string \<Rightarrow> request \<Rightarrow> 'w \<Rightarrow> (error + gen_response) \<times> 'w"

record 'w state =
  stored_settings :: "settings option"
  stored_messages :: "message list"
  stored_memoryLogs :: "memory_log list"
  nextId :: nat
  envApiKey :: "string option"
  world :: 'w
  calls :: "call list"

definition callEmbed ::
  "'w provider \<Rightarrow> string \<Rightarrow> string \<Rightarrow> 'w state \<Rightarrow> (error + real list) \<times> 'w state" where
  "callEmbed P key txt s =
     (case embedContent P key txt (world s) of
        (r, w') \<Rightarrow> (r, s\<lparr>world := w', calls := calls s @ [EmbedCall key txt]\<rparr>))"

definition callGenerate ::
  "'w provider \<Rightarrow> string \<Rightarrow> string \<Rightarrow> request \<Rightarrow> 'w state
     \<Rightarrow> (error + gen_response) \<times> 'w state" where
  "callGenerate P key model req s =
     (case generateContent P key model req (world s) of
        (r, w') \<Rightarrow> (r, s\<lparr>world := w', calls := calls s @ [GenerateCall key model req]\<rparr>))"

subsection \<open>Storage (DatabaseStorage)\<close>

text \<open>
  The tables are lists in insertion order, which is the order of \<open>createdAt\<close>; an id
  is the next value of a counter, standing for a fresh uuid.
\<close>

definition getSettings :: "'w state \<Rightarrow> settings option" where
  "getSettings s = stored_settings s"

definition getAllMessages :: "'w state \<Rightarrow> message list" where
  "getAllMessages s = stored_messages s"

definition createMessage ::
  "string \<Rightarrow> string \<Rightarrow> string option \<Rightarrow> 'w state \<Rightarrow> message \<times> 'w state" where
  "createMessage r c loc s =
     (let created = \<lparr>msg_id = nextId s, role = r, content = c, location = loc\<rparr>
      in (created, s\<lparr>stored_messages := stored_messages s @ [created],
                       nextId := Suc (nextId s)\<rparr>))"

definition createMemoryLog ::
  "string \<Rightarrow> string \<Rightarrow> int \<Rightarrow> 'w state \<Rightarrow> memory_log \<times> 'w state" where
  "createMemoryLog c summ imp s =
     (let created = \<lparr>log_id = nextId s, log_content = c, log_embedding = None,
                      log_location = None, log_summary = Some summ, log_type = None,
                      importance = imp\<rparr>
      in (created, s\<lparr>stored_memoryLogs := stored_memoryLogs s @ [created],
                       nextId := Suc (nextId s)\<rparr>))"

section \<open>MemoryAgent (agents/memory.agent.ts)\<close>

text \<open>
  Numbers are modelled as reals, and \<open>NaN\<close> as \<open>None\<close>: the dot product reads
  \<open>vecB[idx]\<close> for every index of \<open>vecA\<close>, which is \<open>undefined\<close> past the end of
  \<open>vecB\<close> and makes the sum \<open>NaN\<close>. Rounding is not modelled: the values are those of
  exact arithmetic, which the doubles of the source only approximate, so the results
  below about retrieval hold for whatever values the similarities take and none of
  them rests on a particular value.
\<close>

definition resolveKey :: "string option \<Rightarrow> 'w state \<Rightarrow> string option" where
  \<comment> \<open>\<open>apiKey || process.env.GEMINI_API_KEY\<close>\<close>
  "resolveKey k s = (if truthy k then k else envApiKey s)"

definition getEmbedding ::
  "'w provider \<Rightarrow> string \<Rightarrow> string option \<Rightarrow> 'w state \<Rightarrow> (error + real list) \<times> 'w state" where
  "getEmbedding P txt apiKey s =
     (let finalApiKey = resolveKey apiKey s in
      if \<not> truthy finalApiKey then (Inl (Error ''GEMINI_API_KEY not configured'' False), s)
      else callEmbed P (orElse finalApiKey []) txt s)"

fun getEmbeddings ::
  "'w provider \<Rightarrow> string \<Rightarrow> string list \<Rightarrow> real list list \<Rightarrow> 'w state
     \<Rightarrow> (error + real list list) \<times> 'w state" where
  \<comment> \<open>the loop over \<open>texts\<close>, with the embeddings pushed so far\<close>
  "getEmbeddings P key [] embeddings s = (Inr embeddings, s)"
| "getEmbeddings P key (t # texts) embeddings s =
     (case callEmbed P key t s of
        (Inl e, s') \<Rightarrow> (Inl e, s')
      | (Inr v, s') \<Rightarrow> getEmbeddings P key texts (embeddings @ [v]) s')"

definition getEmbeddingsAll ::
  "'w provider \<Rightarrow> string option \<Rightarrow> string list \<Rightarrow> 'w state
     \<Rightarrow> (error + real list list) \<times> 'w state" where
  "getEmbeddingsAll P apiKey texts s =
     (let finalApiKey = resolveKey apiKey s in
      if \<not> truthy finalApiKey then (Inl (Error ''GEMINI_API_KEY not configured'' False), s)
      else getEmbeddings P (orElse finalApiKey []) texts [] s)"

definition dotProduct :: "real list \<Rightarrow> real list \<Rightarrow> real option" where
  "dotProduct vecA vecB =
     (if length vecB < length vecA then None
      else Some (sum_list (map (\<lambda>(a, b). a * b) (zip vecA vecB))))"

definition magnitude :: "real list \<Rightarrow> real" where
  "magnitude v = sqrt (sum_list (map (\<lambda>x. x * x) v))"

definition cosineSimilarity :: "real list \<Rightarrow> real list \<Rightarrow> real option" where
  "cosineSimilarity vecA vecB =
     (let dot = dotProduct vecA vecB;
          magnitudeA = magnitude vecA;
          magnitudeB = magnitude vecB
      in if magnitudeA = 0 \<or> magnitudeB = 0 then Some 0
         else map_option (\<lambda>d. d / (magnitudeA * magnitudeB)) dot)"

section \<open>QueryAgent (agents/query.agent.ts)\<close>

definition stopWords :: "string list" where
  "stopWords = [''the'', ''a'', ''an'', ''and'', ''or'', ''but'', ''in'', ''on'', ''at'', ''to'',
     ''for'', ''of'', ''with'', ''by'', ''is'', ''are'', ''was'', ''were'', ''be'', ''been'',
     ''being'', ''have'', ''has'', ''had'', ''do'', ''does'', ''did'']"

definition extractKeywords :: "string \<Rightarrow> string list" where
  "extractKeywords query =
     (let cleaned = map (\<lambda>c. if isWordChar c \<or> isSpace c then c else CHR '' '')
                        (toLowerCase query);
          words = filter (\<lambda>word. length word > 2 \<and> word \<notin> set stopWords)
                         (splitSpaces False [] cleaned)
      in uniq words)"

definition keywordMatches :: "nat \<Rightarrow> message list \<Rightarrow> string \<Rightarrow> message list" where
  \<comment> \<open>the body of the loop over the keywords: filter, stable sort by length, cut\<close>
  "keywordMatches keywordLimit allMessages keyword =
     (let matches = filter (\<lambda>m. includesStr (toLowerCase (content m)) (toLowerCase keyword))
                           allMessages;
          sortedMatches = sort_key (\<lambda>m. length (content m)) matches
      in take keywordLimit sortedMatches)"

definition addUnique :: "message \<Rightarrow> (nat \<times> message) list \<Rightarrow> (nat \<times> message) list" where
  \<comment> \<open>\<open>if (!uniqueMessages.has(id)) uniqueMessages.set(id, message)\<close>\<close>
  "addUnique m u = (if map_of u (msg_id m) \<noteq> None then u else AList.update (msg_id m) m u)"

definition keywordSearch :: "string \<Rightarrow> message list \<Rightarrow> message list" where
  "keywordSearch query allMessages =
     (let keywords = extractKeywords query in
      if length keywords = 0 then []
      else
        let keywordLimit = (if length keywords < 5 then 15 else 10);
            allKeywordMatches =
              fold (\<lambda>keyword acc.
                      AList.update keyword (keywordMatches keywordLimit allMessages keyword) acc)
                   keywords [];
            uniqueMessages =
              fold (\<lambda>(keyword, matches) u. fold addUnique matches u) allKeywordMatches []
        in map snd uniqueMessages)"

definition SIMILARITY_THRESHOLD :: real where
  "SIMILARITY_THRESHOLD = 1 / 10"

definition rankBySimilarity :: "(message \<times> real option) list \<Rightarrow> message list" where
  \<comment> \<open>\<open>filter\<close> (a \<open>NaN\<close> is not above the threshold), stable \<open>sort\<close> descending, \<open>map\<close>\<close>
  "rankBySimilarity similarities =
     map fst
       (sort_key (\<lambda>(m, v). - v)
          (List.map_filter
             (\<lambda>(m, sim). case sim of None \<Rightarrow> None
                          | Some v \<Rightarrow> if v > SIMILARITY_THRESHOLD then Some (m, v) else None)
             similarities))"

definition semanticSearch ::
  "'w provider \<Rightarrow> string option \<Rightarrow> string \<Rightarrow> message list \<Rightarrow> 'w state
     \<Rightarrow> message list \<times> 'w state" where
  "semanticSearch P agentKey query allMessages s =
     (case getEmbedding P query agentKey s of
        (Inl e, s1) \<Rightarrow> ([], s1)
      | (Inr queryEmbedding, s1) \<Rightarrow>
          (case getEmbeddingsAll P agentKey (map content allMessages) s1 of
             (Inl e, s2) \<Rightarrow> ([], s2)
           | (Inr messageEmbeddings, s2) \<Rightarrow>
               (let similarities =
                      map (\<lambda>(m, emb). (m, cosineSimilarity queryEmbedding emb))
                          (zip allMessages messageEmbeddings);
                    relevantMessages = rankBySimilarity similarities
                in (take 15 relevantMessages, s2))))"

definition mergeSemantic :: "message list \<Rightarrow> message list \<Rightarrow> message list" where
  \<comment> \<open>the loop that pushes the semantic results whose id is not among the keyword ids\<close>
  "mergeSemantic keywordBasedResults semanticSearchResults =
     (let existingIds = set (map msg_id keywordBasedResults)
      in fold (\<lambda>m combinedResults.
                 if msg_id m \<notin> existingIds then combinedResults @ [m] else combinedResults)
              semanticSearchResults keywordBasedResults)"

definition queryMessages ::
  "'w provider \<Rightarrow> string \<Rightarrow> string \<Rightarrow> 'w state \<Rightarrow> message list \<times> 'w state" where
  "queryMessages P query apiKey s =
     (let agentKey = resolveKey (Some apiKey) s;
          allMessages = getAllMessages s
      in if length allMessages = 0 then ([], s)
         else
           (let keywordBasedResults = keywordSearch query allMessages in
            case semanticSearch P agentKey query allMessages s of
              (semanticSearchResults, s1) \<Rightarrow>
                (let combinedResults = mergeSemantic keywordBasedResults semanticSearchResults;
                     finalResults = take 100 combinedResults
                 in (finalResults, s1))))"

section \<open>SmartRagAgent\<close>

text \<open>
  In the prompt templates of this and the following sections the interpolated values
  stand where the source has them; the fixed instruction text between them is cut
  down to its first words, since the provider is an oracle.
\<close>

definition buildFilteringPrompt :: "string \<Rightarrow> message list \<Rightarrow> message list \<Rightarrow> string" where
  "buildFilteringPrompt userMessage retrievedMemories recentHistory =
     (let memoriesText =
            joinWith [nl, nl]
              (map (\<lambda>mem. ''[Memory Chunk]'' @ [nl] @ role mem @ '': '' @ content mem)
                   retrievedMemories);
          historyText = joinWith [nl] (map (\<lambda>msg. role msg @ '': '' @ content msg) recentHistory)
      in [nl] @ ''**ROLE AND FUNCTION:** ...'' @ [nl] @ ''---'' @ [nl] @ memoriesText @ [nl]
         @ ''---'' @ [nl] @ ''Recent conversation:'' @ [nl] @ ''---'' @ [nl] @ historyText @ [nl]
         @ ''---'' @ [nl] @ ''User's current input:'' @ [nl] @ ''---'' @ [nl]
         @ [CHR 0x22] @ userMessage @ [CHR 0x22] @ [nl] @ ''---'' @ [nl]
         @ ''**FINAL OUTPUT:** ...'' @ [nl])"

definition filterContext ::
  "'w provider \<Rightarrow> string \<Rightarrow> string \<Rightarrow> message list \<Rightarrow> message list \<Rightarrow> 'w state
     \<Rightarrow> (error + string) \<times> 'w state" where
  \<comment> \<open>the first argument after the provider is the key the agent was constructed with\<close>
  "filterContext P agentKey userMessage retrievedMemories recentHistory s =
     (if length retrievedMemories = 0 then (Inr [], s)
      else
        (let prompt = buildFilteringPrompt userMessage retrievedMemories recentHistory in
         case callGenerate P agentKey ''gemini-2.5-pro'' (Prompt prompt) s of
           (Inl e, s1) \<Rightarrow> (Inl e, s1)
         | (Inr response, s1) \<Rightarrow>
             (case responseText response of
                Inl e \<Rightarrow> (Inl e, s1)
              | Inr t \<Rightarrow> (Inr (trim t), s1))))"

definition smartRagHandleRequest ::
  "'w provider \<Rightarrow> string \<Rightarrow> string \<Rightarrow> message list \<Rightarrow> string \<Rightarrow> 'w state
     \<Rightarrow> (error + string) \<times> 'w state" where
  \<comment> \<open>\<open>new SmartRagAgent(agentKey).handleRequest(userMessage, history, clientApiKey)\<close>\<close>
  "smartRagHandleRequest P agentKey userMessage rawConversationHistory clientApiKey s =
     (if agentKey = [] then
        (Inl (Error ''API key is required to initialize SmartRagAgent'' False), s)
      else
        (case queryMessages P userMessage clientApiKey s of
           (retrievedMemories, s1) \<Rightarrow>
             (let recentHistory = sliceLast 5 rawConversationHistory
              in filterContext P agentKey userMessage retrievedMemories recentHistory s1)))"

section \<open>GenerationAgent\<close>

record chat_context =
  ctx_behaviorPrompt :: string
  ctx_frameworkTemplate :: string
  ctx_characterPreset :: "string option"
  ctx_lore :: "string option"
  relevantMemories :: "string list"
  highFidelityTranscript :: "string option"
  conversationHistory :: "(string \<times> string) list"

function showNat :: "nat \<Rightarrow> string" where
  "showNat n = (if n < 10 then [char_of (48 + n)]
                else showNat (n div 10) @ [char_of (48 + n mod 10)])"
  by pat_completeness auto
termination
  by (relation "measure (\<lambda>n. n)") auto

declare showNat.simps [simp del]

definition SAFETY_SENTINEL :: string where
  "SAFETY_SENTINEL = ''Generation error due to Safety Issue''"

definition NO_TEXT_APOLOGY :: string where
  \<comment> \<open>the source's apostrophe is U+2019, outside the modelled code units; the ASCII
      apostrophe stands in its place\<close>
  "NO_TEXT_APOLOGY = ''I couldn't generate a response. Please try again.''"

definition buildSystemInstruction :: "chat_context \<Rightarrow> string" where
  "buildSystemInstruction context =
     (let s0 = ctx_behaviorPrompt context;
          s1 = (if truthy (ctx_characterPreset context)
                then s0 @ [nl, nl] @ ''--- PRESET CHARACTER DETAILS ---'' @ [nl]
                        @ orElse (ctx_characterPreset context) []
                else s0);
          s2 = (if truthy (ctx_lore context)
                then s1 @ [nl, nl] @ ''--- WORLD LORE & BACKGROUND ---'' @ [nl]
                        @ orElse (ctx_lore context) []
                else s1);
          s3 = (if ctx_frameworkTemplate context \<noteq> []
                then s2 @ [nl, nl] @ ''Output Format:'' @ [nl] @ ctx_frameworkTemplate context
                else s2)
      in if truthy (highFidelityTranscript context)
         then s3 @ [nl, nl] @ ''--- Full Transcript of a Relevant Past Event ---'' @ [nl]
                 @ ''You have requested details about a past event. ...'' @ [nl]
                 @ orElse (highFidelityTranscript context) []
         else if length (relevantMemories context) > 0
         then s3 @ [nl, nl] @ ''--- Relevant Context from Memory ---'' @ [nl]
                 @ joinWith [nl]
                     (map (\<lambda>(i, mem). ''[Memory '' @ showNat (i + 1) @ '']: '' @ mem)
                          (zip [0 ..< length (relevantMemories context)]
                               (relevantMemories context)))
         else s3)"

definition buildContents :: "string \<Rightarrow> chat_context \<Rightarrow> (string \<times> string) list" where
  "buildContents userMessage context =
     (let systemInstruction = buildSystemInstruction context;
          contents = map (\<lambda>(r, c). (if r = ''user'' then ''user'' else ''model'', c))
                         (conversationHistory context);
          injected =
            (case contents of
               (r, c) # rest \<Rightarrow>
                 if r = ''user''
                 then (r, systemInstruction @ [nl, nl] @ ''---'' @ [nl, nl] @ c) # rest
                 else (''user'', systemInstruction) # contents
             | [] \<Rightarrow> [(''user'', systemInstruction)])
      in injected @ [(''user'', userMessage)])"

definition generationCatch :: "error \<Rightarrow> error + string" where
  \<comment> \<open>the \<open>catch\<close> block of \<open>generateStoryResponse\<close>\<close>
  "generationCatch err =
     (if safetyBlock err then Inr SAFETY_SENTINEL
      else if includesStr (message err) ''API_KEY''
      then Inl (Error ''Invalid or missing Gemini API key. Please configure it in Settings.'' False)
      else Inl (Error (''Failed to generate response: ''
                        @ (if message err = [] then ''Unknown error'' else message err)) False))"

definition generateStoryResponse ::
  "'w provider \<Rightarrow> string \<Rightarrow> chat_context \<Rightarrow> string option \<Rightarrow> 'w state
     \<Rightarrow> (error + string) \<times> 'w state" where
  "generateStoryResponse P userMessage context apiKey s =
     (let key = (if truthy apiKey then orElse apiKey [] else orElse (envApiKey s) []);
          req = Contents (buildContents userMessage context)
      in case callGenerate P key ''gemini-3-pro-preview'' req s of
           (Inl err, s1) \<Rightarrow> (generationCatch err, s1)
         | (Inr response, s1) \<Rightarrow>
             if promptBlocked response \<or> candidateBlocked response
             then (Inr SAFETY_SENTINEL, s1)
             else (case responseText response of
                     Inl err \<Rightarrow> (generationCatch err, s1)
                   | Inr t \<Rightarrow> (Inr (if t = [] then NO_TEXT_APOLOGY else t), s1)))"

section \<open>ProofreaderAgent\<close>

record proofreader_result =
  isCompliant :: bool
  feedback :: "string option"

definition buildReviewPrompt :: "string \<Rightarrow> string \<Rightarrow> string" where
  "buildReviewPrompt userMessage response =
     [nl] @ ''You are a specialized proofreading assistant. ...'' @ [nl, nl]
     @ ''The user's most recent input was:'' @ [nl] @ [CHR 0x22, CHR 0x22, CHR 0x22] @ [nl]
     @ userMessage @ [nl] @ [CHR 0x22, CHR 0x22, CHR 0x22] @ [nl, nl]
     @ ''The AI generated this response:'' @ [nl] @ [CHR 0x22, CHR 0x22, CHR 0x22] @ [nl]
     @ response @ [nl] @ [CHR 0x22, CHR 0x22, CHR 0x22] @ [nl, nl]
     @ ''Your job is to analyze and review the AI's response, ...'' @ [nl, nl]
     @ ''Provide your verdict now.''"

definition stripNonCompliant :: "string \<Rightarrow> string" where
  \<comment> \<open>\<open>text.replace(/^NON-COMPLIANT\s*/, '')\<close>\<close>
  "stripNonCompliant t =
     (if startsWith t ''NON-COMPLIANT''
      then dropWhile isSpace (drop (length ''NON-COMPLIANT'') t) else t)"

definition NO_FEEDBACK :: string where
  "NO_FEEDBACK = ''The response was non-compliant, but no specific feedback was provided.''"

definition reviewResponse ::
  "'w provider \<Rightarrow> string \<Rightarrow> string \<Rightarrow> string \<Rightarrow> 'w state \<Rightarrow> proofreader_result \<times> 'w state" where
  "reviewResponse P response apiKey userMessage s =
     (let prompt = buildReviewPrompt userMessage response in
      case callGenerate P apiKey ''gemini-2.5-pro'' (Prompt prompt) s of
        (Inl err, s1) \<Rightarrow> (\<lparr>isCompliant = True, feedback = None\<rparr>, s1)
      | (Inr result, s1) \<Rightarrow>
          (case responseText result of
             Inl err \<Rightarrow> (\<lparr>isCompliant = True, feedback = None\<rparr>, s1)
           | Inr raw \<Rightarrow>
               (let t = trim raw in
                if startsWith t ''COMPLIANT''
                then (\<lparr>isCompliant = True, feedback = None\<rparr>, s1)
                else
                  (let fb = trim (stripNonCompliant t)
                   in (\<lparr>isCompliant = False,
                        feedback = Some (if fb = [] then NO_FEEDBACK else fb)\<rparr>, s1)))))"

section \<open>OrchestratorAgent (agents/orchestrator.agent.ts)\<close>

definition LOCATION_LABEL :: string where
  "LOCATION_LABEL = ''**Location:**''"

definition explicitMatch :: "string \<Rightarrow> string option" where
  \<comment> \<open>\<open>text.match(/^\s*\*\*Location:\*\*\s*(.*)/)\<close>: the first group of the
      match, \<open>None\<close> when the pattern does not match\<close>
  "explicitMatch t =
     (let rest = dropWhile isSpace t in
      if startsWith rest LOCATION_LABEL
      then Some (takeWhile (\<lambda>c. \<not> isLineTerminator c)
                   (dropWhile isSpace (drop (length LOCATION_LABEL) rest)))
      else None)"

definition buildLocationPrompt :: "string \<Rightarrow> string" where
  "buildLocationPrompt header =
     [nl] @ ''From the following header, extract the full location string. ...'' @ [nl]
     @ ''Respond with *only* the location string, and nothing else. ''
     @ ''If no clear location is found, respond with '' @ [CHR 0x22] @ ''N/A'' @ [CHR 0x22]
     @ ''.'' @ [nl] @ ''Header:'' @ [nl] @ [CHR 0x22, CHR 0x22, CHR 0x22] @ [nl]
     @ header @ [nl] @ [CHR 0x22, CHR 0x22, CHR 0x22] @ [nl]"

definition inferLocation ::
  "'w provider \<Rightarrow> string \<Rightarrow> string \<Rightarrow> 'w state \<Rightarrow> string option \<times> 'w state" where
  \<comment> \<open>the part of \<open>_extractLocation\<close> after the explicit match: the header and the
      \<open>try\<close> block\<close>
  "inferLocation P txt apiKey s =
     (let header = joinWith [nl] (take 5 (splitOn nl [] txt)) in
      case callGenerate P apiKey ''gemini-3-flash-preview''
             (Prompt (buildLocationPrompt header)) s of
        (Inl err, s1) \<Rightarrow> (None, s1)
      | (Inr result, s1) \<Rightarrow>
          (case responseText result of
             Inl err \<Rightarrow> (None, s1)
           | Inr raw \<Rightarrow>
               (let loc = trim raw in
                if loc \<noteq> [] \<and> loc \<noteq> ''N/A'' \<and> length loc > 5
                then (Some loc, s1) else (None, s1))))"

definition extractLocation ::
  "'w provider \<Rightarrow> string \<Rightarrow> string \<Rightarrow> 'w state \<Rightarrow> string option \<times> 'w state" where
  "extractLocation P txt apiKey s =
     (if txt = [] then (None, s)
      else
        (case explicitMatch txt of
           Some g \<Rightarrow> if g \<noteq> [] then (Some (trim g), s) else inferLocation P txt apiKey s
         | None \<Rightarrow> inferLocation P txt apiKey s))"

definition MAX_RETRIES :: nat where
  "MAX_RETRIES = 2"

definition correctiveNote :: "string option \<Rightarrow> string" where
  "correctiveNote fb =
     ''System Note: The previous response was not compliant. ''
     @ ''Please fix the following issues and regenerate the response:'' @ [nl] @ ''- ''
     @ (case fb of None \<Rightarrow> ''null'' | Some f \<Rightarrow> f)"

function generationLoop ::
  "'w provider \<Rightarrow> nat \<Rightarrow> string \<Rightarrow> string \<Rightarrow> chat_context \<Rightarrow> string \<Rightarrow> 'w state
     \<Rightarrow> (error + string) \<times> 'w state" where
  \<comment> \<open>the \<open>for\<close> loop from its index \<open>i\<close>, with the current \<open>chatContext\<close> and \<open>response\<close>\<close>
  "generationLoop P i userMessage apiKey chatContext response s =
     (if i < MAX_RETRIES then
        (case generateStoryResponse P userMessage chatContext (Some apiKey) s of
           (Inl err, s1) \<Rightarrow> (Inl err, s1)
         | (Inr generatedResponse, s1) \<Rightarrow>
             (case reviewResponse P generatedResponse apiKey userMessage s1 of
                (review, s2) \<Rightarrow>
                  if isCompliant review then (Inr generatedResponse, s2)
                  else generationLoop P (Suc i) userMessage apiKey
                         (chatContext\<lparr>conversationHistory :=
                            conversationHistory chatContext
                            @ [(''model'', generatedResponse),
                               (''user'', correctiveNote (feedback review))]\<rparr>)
                         generatedResponse s2))
      else (Inr response, s))"
  by pat_completeness auto
termination
  by (relation "measure (\<lambda>(P, i, userMessage, apiKey, chatContext, response, s).
                           MAX_RETRIES - i)") auto

declare generationLoop.simps [simp del]

definition lastLocation :: "message list \<Rightarrow> string" where
  \<comment> \<open>\<open>lastKnownLocation\<close>\<close>
  "lastLocation rawConversationHistory =
     (if length rawConversationHistory > 0
      then orElse (location (last rawConversationHistory)) ''Unknown''
      else ''Unknown'')"

definition orchestratorContext :: "settings \<Rightarrow> string \<Rightarrow> message list \<Rightarrow> chat_context" where
  \<comment> \<open>the \<open>chatContext\<close> object that \<open>handleRequest\<close> builds\<close>
  "orchestratorContext st filteredCanon updatedConversationHistory =
     \<lparr>ctx_behaviorPrompt = behaviorPrompt st,
      ctx_frameworkTemplate = frameworkTemplate st,
      ctx_characterPreset = (if characterPreset st \<noteq> [] then Some (characterPreset st) else None),
      ctx_lore = None,
      relevantMemories = [filteredCanon],
      highFidelityTranscript = None,
      conversationHistory =
        map (\<lambda>msg. (if role msg = ''user'' then ''user'' else ''model'', content msg))
            (sliceLast 20 updatedConversationHistory)\<rparr>"

definition handleRequest ::
  "'w provider \<Rightarrow> string \<Rightarrow> message list \<Rightarrow> string option \<Rightarrow> 'w state
     \<Rightarrow> (error + string) \<times> 'w state" where
  "handleRequest P userMessage rawConversationHistory clientApiKey s =
     (case getSettings s of
        None \<Rightarrow> (Inl (Error ''Settings not found.'' False), s)
      | Some st \<Rightarrow>
          (let keyOpt = (if truthy clientApiKey then clientApiKey else geminiApiKey st) in
           if \<not> truthy keyOpt then (Inl (Error ''Gemini API key is missing.'' False), s)
           else
             (let key = orElse keyOpt [];
                  lastKnownLocation = lastLocation rawConversationHistory
              in case createMessage ''user'' userMessage (Some lastKnownLocation) s of
                   (createdMessage, s1) \<Rightarrow>
                     (let updatedConversationHistory = rawConversationHistory @ [createdMessage]
                      in case smartRagHandleRequest P key userMessage
                                updatedConversationHistory key s1 of
                           (Inl err, s2) \<Rightarrow> (Inl err, s2)
                         | (Inr filteredCanon, s2) \<Rightarrow>
                             (let chatContext =
                                    orchestratorContext st filteredCanon
                                      updatedConversationHistory
                              in case generationLoop P 0 userMessage key chatContext [] s2 of
                                   (Inl err, s3) \<Rightarrow> (Inl err, s3)
                                 | (Inr response, s3) \<Rightarrow>
                                     (case extractLocation P response key s3 of
                                        (extracted, s4) \<Rightarrow>
                                          (let newLocation = orElse extracted lastKnownLocation
                                           in case createMessage ''assistant'' response
                                                     (Some newLocation) s4 of
                                                (saved, s5) \<Rightarrow> (Inr response, s5))))))))"

section \<open>The chat route (routes.ts) and summarizeForMemory (gemini.ts)\<close>

definition maxRetries :: nat where
  "maxRetries = 3"

function summarizeLoop ::
  "'w provider \<Rightarrow> nat \<Rightarrow> string \<Rightarrow> string \<Rightarrow> 'w state \<Rightarrow> string \<times> 'w state" where
  \<comment> \<open>the retry loop from its counter \<open>attempt\<close>; the waits between attempts take time
      and change nothing else\<close>
  "summarizeLoop P attempt key txt s =
     (if attempt \<le> maxRetries then
        (case callGenerate P key ''gemini-2.5-flash''
                (Contents [(''user'', ''Summarize this chat for memory:'' @ [nl, nl] @ txt)]) s of
           (Inr result, s1) \<Rightarrow>
             (case responseText result of
                Inr t \<Rightarrow> (if t = [] then txt else t, s1)
              | Inl err \<Rightarrow>
                  if attempt = maxRetries then (txt, s1)
                  else summarizeLoop P (Suc attempt) key txt s1)
         | (Inl err, s1) \<Rightarrow>
             if attempt = maxRetries then (txt, s1)
             else summarizeLoop P (Suc attempt) key txt s1)
      else (txt, s))"
  by pat_completeness auto
termination
  by (relation "measure (\<lambda>(P, attempt, key, txt, s). Suc maxRetries - attempt)") auto

declare summarizeLoop.simps [simp del]

definition summarizeForMemory ::
  "'w provider \<Rightarrow> string list \<Rightarrow> string option \<Rightarrow> 'w state \<Rightarrow> string \<times> 'w state" where
  "summarizeForMemory P msgs apiKey s =
     (let key = (if truthy apiKey then orElse apiKey [] else orElse (envApiKey s) []);
          txt = joinWith [nl] msgs
      in summarizeLoop P 1 key txt s)"

datatype body = MessageBody message | ErrorBody string

datatype http_response = Response (status: nat) (body: body)

definition DEFAULT_BEHAVIOR :: string where
  "DEFAULT_BEHAVIOR = ''You are a creative and engaging storyteller. ''
     @ ''Your responses should be imaginative, vivid, and captivating.''"

definition errorResponse :: "error \<Rightarrow> http_response" where
  \<comment> \<open>the \<open>catch\<close> block of the route\<close>
  "errorResponse err =
     Response 500 (ErrorBody (if message err = [] then ''Failed to generate response''
                              else message err))"

definition consolidate :: "'w provider \<Rightarrow> string \<Rightarrow> 'w state \<Rightarrow> 'w state" where
  \<comment> \<open>the memory-log step after the assistant message is stored\<close>
  "consolidate P apiKey s =
     (let updatedMessages = getAllMessages s;
          totalMessages = length updatedMessages
      in if totalMessages mod 4 = 0 \<and> totalMessages > 0 then
           (let lastFourMessages = sliceLast 4 updatedMessages;
                conversationSnippet =
                  joinWith [nl] (map (\<lambda>m. role m @ '': '' @ content m) lastFourMessages)
            in case summarizeForMemory P (map content lastFourMessages) (Some apiKey) s of
                 (summary, s1) \<Rightarrow> snd (createMemoryLog conversationSnippet summary 5 s1))
         else s)"

definition routeContext :: "settings option \<Rightarrow> string \<Rightarrow> message list \<Rightarrow> chat_context" where
  \<comment> \<open>the \<open>chatContext\<close> object that the route builds\<close>
  "routeContext st filteredContext allMessages =
     \<lparr>ctx_behaviorPrompt =
        (case st of None \<Rightarrow> DEFAULT_BEHAVIOR
         | Some x \<Rightarrow> if behaviorPrompt x = [] then DEFAULT_BEHAVIOR else behaviorPrompt x),
      ctx_frameworkTemplate = (case st of None \<Rightarrow> [] | Some x \<Rightarrow> frameworkTemplate x),
      ctx_characterPreset = map_option characterPreset st,
      ctx_lore = map_option lore st,
      relevantMemories = (if filteredContext \<noteq> [] then [filteredContext] else []),
      highFidelityTranscript = None,
      conversationHistory = map (\<lambda>msg. (role msg, content msg)) (sliceLast 20 allMessages)\<rparr>"

definition routeKey :: "'w state \<Rightarrow> string option" where
  \<comment> \<open>\<open>settings?.geminiApiKey || process.env.GEMINI_API_KEY\<close>\<close>
  "routeKey s =
     (case getSettings s of
        None \<Rightarrow> envApiKey s
      | Some x \<Rightarrow> if truthy (geminiApiKey x) then geminiApiKey x else envApiKey s)"

definition postChat ::
  "'w provider \<Rightarrow> string option \<Rightarrow> 'w state \<Rightarrow> http_response \<times> 'w state" where
  \<comment> \<open>\<open>POST /api/chat\<close>; the argument is \<open>req.body.content\<close>, \<open>None\<close> when the body
      does not parse\<close>
  "postChat P reqContent s =
     (case reqContent of
        None \<Rightarrow> (errorResponse (Error ''Required'' False), s)
      | Some c \<Rightarrow>
          (let st = getSettings s;
               keyOpt = routeKey s
           in if \<not> truthy keyOpt then
                (Response 400
                   (ErrorBody ''Gemini API key not configured. Please add it in Settings.''), s)
              else
                (let apiKey = orElse keyOpt [] in
                 case createMessage ''user'' c None s of
                   (userMessage, s1) \<Rightarrow>
                     (let allMessages = getAllMessages s1 in
                      case smartRagHandleRequest P apiKey c allMessages apiKey s1 of
                        (Inl err, s2) \<Rightarrow> (errorResponse err, s2)
                      | (Inr filteredContext, s2) \<Rightarrow>
                          (let chatContext = routeContext st filteredContext allMessages
                           in case generateStoryResponse P c chatContext (Some apiKey) s2 of
                                (Inl err, s3) \<Rightarrow> (errorResponse err, s3)
                              | (Inr aiResponse, s3) \<Rightarrow>
                                  (case reviewResponse P aiResponse apiKey c s3 of
                                     (proofreaderResult, s4) \<Rightarrow>
                                       (case createMessage ''assistant'' aiResponse None s4 of
                                          (assistantMessage, s5) \<Rightarrow>
                                            (Response 200 (MessageBody assistantMessage),
                                             consolidate P apiKey s5))))))))"

section \<open>Observing a run\<close>

text \<open>
  A generation attempt is a call of the generation model, which no other agent uses.
  Two states have the same store when they differ at most in the world of the
  providers and in the record of the calls made.
\<close>

definition isGenerationCall :: "call \<Rightarrow> bool" where
  "isGenerationCall c =
     (case c of GenerateCall key model req \<Rightarrow> model = ''gemini-3-pro-preview''
              | EmbedCall key txt \<Rightarrow> False)"

definition generationAttempts :: "'w state \<Rightarrow> nat" where
  "generationAttempts s = length (filter isGenerationCall (calls s))"

definition sameStore :: "'w state \<Rightarrow> 'w state \<Rightarrow> bool" where
  "sameStore s s' =
     (stored_settings s' = stored_settings s \<and> stored_messages s' = stored_messages s
      \<and> stored_memoryLogs s' = stored_memoryLogs s \<and> nextId s' = nextId s
      \<and> envApiKey s' = envApiKey s)"

definition quiet :: "'w state \<Rightarrow> 'w state \<Rightarrow> bool" where
  "quiet s s' = (sameStore s s' \<and> generationAttempts s' = generationAttempts s)"

definition keyedById :: "(nat \<times> message) list \<Rightarrow> bool" where
  \<comment> \<open>what \<open>uniqueMessages\<close> is at every step: one entry for an id, under that id\<close>
  "keyedById u = (distinct (map fst u) \<and> (\<forall>p \<in> set u. fst p = msg_id (snd p)))"

definition storageInvariant :: "'w state \<Rightarrow> bool" where
  \<comment> \<open>the primary key of the messages table: ids are distinct and below the counter\<close>
  "storageInvariant s =
     (distinct (map msg_id (stored_messages s))
      \<and> (\<forall>m \<in> set (stored_messages s). msg_id m < nextId s))"

section \<open>Test doubles\<close>

text \<open>
  Providers and states for running the model on concrete inputs. The scripted
  language model answers from a script: the world is the list of answers still to
  give, and an exhausted script means the provider is down; its embedding model is
  either down or answers with one of two orthogonal vectors. The other two providers
  ignore the world: one is down for every call, one gives a fixed answer for each
  model. The corpora are the four turns of \<open>scripts/test-orchestrator.ts\<close> and 110
  turns in which each of eleven keywords is the content of ten turns.
\<close>

definition textReply :: "string \<Rightarrow> error + gen_response" where
  "textReply t = Inr \<lparr>promptBlocked = False, candidateBlocked = False, responseText = Inr t\<rparr>"

definition providerDown :: "error + 'a" where
  "providerDown = Inl (Error ''provider unavailable'' False)"

definition nextScripted ::
  "(error + gen_response) list \<Rightarrow> (error + gen_response) \<times> (error + gen_response) list" where
  "nextScripted w = (case w of [] \<Rightarrow> (providerDown, []) | r # rs \<Rightarrow> (r, rs))"

definition scriptedProvider :: "((error + gen_response) list) provider" where
  "scriptedProvider =
     \<lparr>embedContent = (\<lambda>key txt w. (providerDown, w)),
      generateContent = (\<lambda>key model req w. nextScripted w)\<rparr>"

definition skyProvider :: "((error + gen_response) list) provider" where
  "skyProvider =
     \<lparr>embedContent = (\<lambda>key txt w.
         (Inr (if txt = ''What color is the sky?'' \<or> txt = ''The sky is blue in the village.''
                  \<or> txt = ''You see a bird flying in the forest.''
               then [1, 0] else [0, 1]), w)),
      generateContent = (\<lambda>key model req w. nextScripted w)\<rparr>"

definition downProvider :: "'w provider" where
  "downProvider =
     \<lparr>embedContent = (\<lambda>key txt w. (providerDown, w)),
      generateContent = (\<lambda>key model req w. (providerDown, w))\<rparr>"

definition cannedProvider :: "'w provider" where
  \<comment> \<open>one fixed answer for each model: the story, the summary, and \<open>COMPLIANT\<close> for the
      reviewer and the filter\<close>
  "cannedProvider =
     \<lparr>embedContent = (\<lambda>key txt w. (providerDown, w)),
      generateContent = (\<lambda>key model req w.
         (if model = ''gemini-3-pro-preview'' then textReply ''You walk north.''
          else if model = ''gemini-2.5-flash'' then textReply ''They travel north.''
          else textReply ''COMPLIANT'', w))\<rparr>"

definition demoSettings :: settings where
  "demoSettings = \<lparr>geminiApiKey = Some ''k'', behaviorPrompt = ''Narrate.'',
     frameworkTemplate = [], characterPreset = [], lore = []\<rparr>"

definition demoState :: "message list \<Rightarrow> 'w \<Rightarrow> 'w state" where
  "demoState ms w = \<lparr>stored_settings = Some demoSettings, stored_messages = ms,
     stored_memoryLogs = [], nextId = length ms, envApiKey = None, world = w, calls = []\<rparr>"

definition twoRejections :: "(error + gen_response) list" where
  "twoRejections =
     [textReply [], textReply ''Night falls. You wake at dawn.'',
      textReply ''NON-COMPLIANT The AI skipped the night.'',
      textReply ''You walk north.'',
      textReply ''NON-COMPLIANT The AI changed the location.'',
      textReply ''N/A'']"


definition elevenWords :: "string list" where
  "elevenWords = [''aaa'', ''bbb'', ''ccc'', ''ddd'', ''eee'', ''fff'', ''ggg'',
     ''hhh'', ''iii'', ''jjj'', ''kkk'']"

definition elevenQuery :: string where
  "elevenQuery = ''aaa bbb ccc ddd eee fff ggg hhh iii jjj kkk''"

definition bigCorpus :: "message list" where
  "bigCorpus = map (\<lambda>i. \<lparr>msg_id = i, role = ''assistant'',
                            content = elevenWords ! (i div 10), location = None\<rparr>) [0 ..< 110]"

definition skyCorpus :: "message list" where
  "skyCorpus =
     [\<lparr>msg_id = 0, role = ''assistant'', content = ''The sky is blue in the village.'',
       location = Some ''Village''\<rparr>,
      \<lparr>msg_id = 1, role = ''user'', content = ''I look at the sky.'',
       location = Some ''Village''\<rparr>,
      \<lparr>msg_id = 2, role = ''assistant'', content = ''You see a bird flying in the forest.'',
       location = Some ''Forest''\<rparr>,
      \<lparr>msg_id = 3, role = ''user'', content = ''I follow the bird.'',
       location = Some ''Forest''\<rparr>]"

definition skyState :: "(error + gen_response) list state" where
  "skyState = demoState skyCorpus []"

definition bigState :: "(error + gen_response) list state" where
  "bigState = demoState bigCorpus []"

definition twoState :: "unit state" where
  "twoState = demoState (take 2 skyCorpus) ()"

definition threeState :: "unit state" where
  "threeState = demoState (take 3 skyCorpus) ()"

section \<open>What each stage leaves unchanged\<close>

lemma quiet_refl [simp]: "quiet s s"
  by (simp add: quiet_def sameStore_def)

lemma quiet_trans: "quiet s s1 \<Longrightarrow> quiet s1 s2 \<Longrightarrow> quiet s s2"
  by (simp add: quiet_def sameStore_def)

lemma callEmbed_quiet: "callEmbed P key txt s = (r, s') \<Longrightarrow> quiet s s'"
  by (auto simp: callEmbed_def quiet_def sameStore_def generationAttempts_def
        isGenerationCall_def split: prod.splits)

lemma callGenerate_quiet:
  "callGenerate P key model req s = (r, s') \<Longrightarrow> model \<noteq> ''gemini-3-pro-preview''
     \<Longrightarrow> quiet s s'"
  by (auto simp: callGenerate_def quiet_def sameStore_def generationAttempts_def
        isGenerationCall_def split: prod.splits)

lemma getEmbeddings_quiet: "getEmbeddings P key texts embs s = (r, s') \<Longrightarrow> quiet s s'"
proof (induction texts arbitrary: embs s)
  case Nil
  then show ?case by simp
next
  case (Cons t texts)
  obtain r1 s1 where c: "callEmbed P key t s = (r1, s1)" by (cases "callEmbed P key t s")
  then have q: "quiet s s1" by (rule callEmbed_quiet)
  show ?case
  proof (cases r1)
    case (Inl e)
    with Cons.prems c q show ?thesis by simp
  next
    case (Inr v)
    with Cons.prems c have "getEmbeddings P key texts (embs @ [v]) s1 = (r, s')" by simp
    then have "quiet s1 s'" by (rule Cons.IH)
    with q show ?thesis by (rule quiet_trans)
  qed
qed

lemma getEmbedding_quiet: "getEmbedding P txt k s = (r, s') \<Longrightarrow> quiet s s'"
  by (auto simp: getEmbedding_def Let_def split: if_splits dest: callEmbed_quiet)

lemma getEmbeddingsAll_quiet: "getEmbeddingsAll P k texts s = (r, s') \<Longrightarrow> quiet s s'"
  by (auto simp: getEmbeddingsAll_def Let_def split: if_splits dest: getEmbeddings_quiet)

lemma semanticSearch_quiet: "semanticSearch P k q ms s = (r, s') \<Longrightarrow> quiet s s'"
  by (auto simp: semanticSearch_def Let_def split: prod.splits sum.splits
        dest!: getEmbedding_quiet getEmbeddingsAll_quiet intro: quiet_trans)

lemma queryMessages_quiet: "queryMessages P q k s = (r, s') \<Longrightarrow> quiet s s'"
  by (auto simp: queryMessages_def Let_def split: prod.splits if_splits
        dest!: semanticSearch_quiet)

lemma filterContext_quiet: "filterContext P k u ms h s = (r, s') \<Longrightarrow> quiet s s'"
  by (auto simp: filterContext_def Let_def split: prod.splits sum.splits if_splits
        dest!: callGenerate_quiet)

lemma smartRag_quiet: "smartRagHandleRequest P ak u h ck s = (r, s') \<Longrightarrow> quiet s s'"
  by (auto simp: smartRagHandleRequest_def Let_def split: prod.splits if_splits
        dest!: queryMessages_quiet filterContext_quiet intro: quiet_trans)

lemma reviewResponse_quiet: "reviewResponse P r k u s = (v, s') \<Longrightarrow> quiet s s'"
  by (auto simp: reviewResponse_def Let_def split: prod.splits sum.splits if_splits
        dest!: callGenerate_quiet)

lemma inferLocation_quiet: "inferLocation P t k s = (v, s') \<Longrightarrow> quiet s s'"
  by (auto simp: inferLocation_def Let_def split: prod.splits sum.splits if_splits
        dest!: callGenerate_quiet)

lemma extractLocation_quiet: "extractLocation P t k s = (v, s') \<Longrightarrow> quiet s s'"
  by (auto simp: extractLocation_def split: option.splits if_splits
        dest!: inferLocation_quiet)

lemma generateStoryResponse_frame:
  "generateStoryResponse P u ctx k s = (r, s')
     \<Longrightarrow> sameStore s s' \<and> generationAttempts s' = Suc (generationAttempts s)"
  by (auto simp: generateStoryResponse_def Let_def callGenerate_def sameStore_def
        generationAttempts_def isGenerationCall_def split: prod.splits sum.splits if_splits)

lemma generateStoryResponse_nonempty:
  "generateStoryResponse P u ctx k s = (Inr g, s') \<Longrightarrow> g \<noteq> []"
  by (auto simp: generateStoryResponse_def Let_def generationCatch_def SAFETY_SENTINEL_def
        NO_TEXT_APOLOGY_def split: prod.splits sum.splits if_splits)

lemma generationLoop_frame:
  "generationLoop P i u k ctx r0 s = (r, s')
     \<Longrightarrow> sameStore s s' \<and> generationAttempts s' \<le> generationAttempts s + (MAX_RETRIES - i)"
proof (induction P i u k ctx r0 s rule: generationLoop.induct)
  case (1 P i u k ctx r0 s)
  show ?case
  proof (cases "i < MAX_RETRIES")
    case False
    with "1.prems" show ?thesis by (simp add: generationLoop.simps sameStore_def)
  next
    case True
    obtain g s1 where gen: "generateStoryResponse P u ctx (Some k) s = (g, s1)"
      by (cases "generateStoryResponse P u ctx (Some k) s")
    from generateStoryResponse_frame [OF gen]
    have f1: "sameStore s s1" "generationAttempts s1 = Suc (generationAttempts s)" by simp_all
    show ?thesis
    proof (cases g)
      case (Inl e)
      with "1.prems" True gen f1 show ?thesis
        by (subst (asm) generationLoop.simps) auto
    next
      case (Inr gr)
      obtain rv s2 where rev: "reviewResponse P gr k u s1 = (rv, s2)"
        by (cases "reviewResponse P gr k u s1")
      from reviewResponse_quiet [OF rev]
      have f2: "sameStore s1 s2" "generationAttempts s2 = generationAttempts s1"
        by (simp_all add: quiet_def)
      show ?thesis
      proof (cases "isCompliant rv")
        case True
        with "1.prems" \<open>i < MAX_RETRIES\<close> gen Inr rev f1 f2 show ?thesis
          by (subst (asm) generationLoop.simps) (auto simp: sameStore_def)
      next
        case False
        let ?ctx = "ctx\<lparr>conversationHistory := conversationHistory ctx
                       @ [(''model'', gr), (''user'', correctiveNote (feedback rv))]\<rparr>"
        from "1.prems" \<open>i < MAX_RETRIES\<close> gen Inr rev False
        have rec: "generationLoop P (Suc i) u k ?ctx gr s2 = (r, s')"
          by (subst (asm) generationLoop.simps) simp
        from "1.IH" [OF \<open>i < MAX_RETRIES\<close> gen [symmetric] Inr rev [symmetric] False rec]
        have "sameStore s2 s'"
          "generationAttempts s' \<le> generationAttempts s2 + (MAX_RETRIES - Suc i)" by simp_all
        with f1 f2 \<open>i < MAX_RETRIES\<close> show ?thesis by (auto simp: sameStore_def)
      qed
    qed
  qed
qed


lemma loop_two_noncompliant:
  assumes "generateStoryResponse P u ctx (Some key) s2 = (Inr g1, s3)"
    and "reviewResponse P g1 key u s3 = (v1, s4)" and "\<not> isCompliant v1"
    and "generateStoryResponse P u
           (ctx\<lparr>conversationHistory := conversationHistory ctx
                   @ [(''model'', g1), (''user'', correctiveNote (feedback v1))]\<rparr>)
           (Some key) s4 = (Inr g2, s5)"
    and "reviewResponse P g2 key u s5 = (v2, s6)" and "\<not> isCompliant v2"
  shows "generationLoop P 0 u key ctx r0 s2 = (Inr g2, s6)"
proof -
  let ?ctx1 = "ctx\<lparr>conversationHistory := conversationHistory ctx
                   @ [(''model'', g1), (''user'', correctiveNote (feedback v1))]\<rparr>"
  let ?ctx2 = "?ctx1\<lparr>conversationHistory := conversationHistory ?ctx1
                   @ [(''model'', g2), (''user'', correctiveNote (feedback v2))]\<rparr>"
  have "generationLoop P 2 u key ?ctx2 g2 s6 = (Inr g2, s6)"
    by (subst generationLoop.simps) (simp add: MAX_RETRIES_def)
  then have "generationLoop P (Suc 0) u key ?ctx1 g1 s4 = (Inr g2, s6)"
    using assms(4-6)
    by (subst generationLoop.simps) (simp add: MAX_RETRIES_def numeral_2_eq_2)
  then show ?thesis
    using assms(1-3)
    by (subst generationLoop.simps) (simp add: MAX_RETRIES_def)
qed

lemma createMessage_frame:
  "createMessage r c loc s = (m, s')
     \<Longrightarrow> m = \<lparr>msg_id = nextId s, role = r, content = c, location = loc\<rparr>
         \<and> stored_messages s' = stored_messages s @ [m]
         \<and> stored_memoryLogs s' = stored_memoryLogs s
         \<and> stored_settings s' = stored_settings s
         \<and> generationAttempts s' = generationAttempts s"
  by (auto simp: createMessage_def Let_def generationAttempts_def)

lemma handleRequest_run:
  assumes st: "getSettings s = Some st"
    and tk: "truthy (if truthy ck then ck else geminiApiKey st)"
    and key: "key = orElse (if truthy ck then ck else geminiApiKey st) []"
    and c: "createMessage ''user'' u (Some (lastLocation h)) s = (cm, s1)"
  shows "(\<exists>e s2. smartRagHandleRequest P key u (h @ [cm]) key s1 = (Inl e, s2)
                 \<and> handleRequest P u h ck s = (Inl e, s2))
       \<or> (\<exists>canon s2 e s3.
             smartRagHandleRequest P key u (h @ [cm]) key s1 = (Inr canon, s2)
             \<and> generationLoop P 0 u key (orchestratorContext st canon (h @ [cm])) [] s2
                 = (Inl e, s3)
             \<and> handleRequest P u h ck s = (Inl e, s3))
       \<or> (\<exists>canon s2 resp s3 ex s4 sv s5.
             smartRagHandleRequest P key u (h @ [cm]) key s1 = (Inr canon, s2)
             \<and> generationLoop P 0 u key (orchestratorContext st canon (h @ [cm])) [] s2
                 = (Inr resp, s3)
             \<and> extractLocation P resp key s3 = (ex, s4)
             \<and> createMessage ''assistant'' resp (Some (orElse ex (lastLocation h))) s4
                 = (sv, s5)
             \<and> handleRequest P u h ck s = (Inr resp, s5))"
proof -
  obtain r2 s2 where rag: "smartRagHandleRequest P key u (h @ [cm]) key s1 = (r2, s2)"
    by (cases "smartRagHandleRequest P key u (h @ [cm]) key s1")
  show ?thesis
  proof (cases r2)
    case (Inl e)
    with st tk c rag have "handleRequest P u h ck s = (Inl e, s2)"
      by (simp add: handleRequest_def Let_def key [symmetric])
    with rag Inl show ?thesis by blast
  next
    case (Inr canon)
    obtain r3 s3 where lp:
      "generationLoop P 0 u key (orchestratorContext st canon (h @ [cm])) [] s2 = (r3, s3)"
      by (cases "generationLoop P 0 u key (orchestratorContext st canon (h @ [cm])) [] s2")
    show ?thesis
    proof (cases r3)
      case (Inl e)
      with st tk c rag \<open>r2 = Inr canon\<close> lp have "handleRequest P u h ck s = (Inl e, s3)"
        by (simp add: handleRequest_def Let_def key [symmetric])
      with rag \<open>r2 = Inr canon\<close> lp Inl show ?thesis by blast
    next
      case (Inr resp)
      obtain ex s4 where el: "extractLocation P resp key s3 = (ex, s4)"
        by (cases "extractLocation P resp key s3")
      obtain sv s5 where fin:
        "createMessage ''assistant'' resp (Some (orElse ex (lastLocation h))) s4 = (sv, s5)"
        by (cases "createMessage ''assistant'' resp (Some (orElse ex (lastLocation h))) s4")
      from st tk c rag \<open>r2 = Inr canon\<close> lp Inr el fin
      have "handleRequest P u h ck s = (Inr resp, s5)"
        by (simp add: handleRequest_def Let_def key [symmetric])
      with rag \<open>r2 = Inr canon\<close> lp Inr el fin show ?thesis by blast
    qed
  qed
qed

lemma quiet_messages: "quiet s s' \<Longrightarrow> stored_messages s' = stored_messages s \<and> nextId s' = nextId s"
  by (simp add: quiet_def sameStore_def)

lemma handleRequest_storage:
  assumes st: "getSettings s = Some st"
    and tk: "truthy (if truthy ck then ck else geminiApiKey st)"
  shows "(fst (handleRequest P u h ck s) = Inl e \<longrightarrow>
            stored_messages (snd (handleRequest P u h ck s))
              = stored_messages s
                @ [\<lparr>msg_id = nextId s, role = ''user'', content = u,
                    location = Some (lastLocation h)\<rparr>])
       \<and> (fst (handleRequest P u h ck s) = Inr r \<longrightarrow>
            (\<exists>loc. stored_messages (snd (handleRequest P u h ck s))
              = stored_messages s
                @ [\<lparr>msg_id = nextId s, role = ''user'', content = u,
                    location = Some (lastLocation h)\<rparr>,
                   \<lparr>msg_id = Suc (nextId s), role = ''assistant'', content = r,
                    location = Some loc\<rparr>]))"
proof -
  define key where "key = orElse (if truthy ck then ck else geminiApiKey st) []"
  obtain cm s1 where c: "createMessage ''user'' u (Some (lastLocation h)) s = (cm, s1)"
    by (cases "createMessage ''user'' u (Some (lastLocation h)) s")
  from createMessage_frame [OF c]
  have cm: "cm = \<lparr>msg_id = nextId s, role = ''user'', content = u,
                   location = Some (lastLocation h)\<rparr>"
    and m1: "stored_messages s1 = stored_messages s @ [cm]" by simp_all
  have n1: "nextId s1 = Suc (nextId s)"
    using c by (auto simp: createMessage_def Let_def)
  from handleRequest_run [OF st tk key_def c, of P]
  consider
    (rag) e' s2 where "smartRagHandleRequest P key u (h @ [cm]) key s1 = (Inl e', s2)"
      "handleRequest P u h ck s = (Inl e', s2)"
  | (gen) canon s2 e' s3 where
      "smartRagHandleRequest P key u (h @ [cm]) key s1 = (Inr canon, s2)"
      "generationLoop P 0 u key (orchestratorContext st canon (h @ [cm])) [] s2 = (Inl e', s3)"
      "handleRequest P u h ck s = (Inl e', s3)"
  | (ok) canon s2 resp s3 ex s4 sv s5 where
      "smartRagHandleRequest P key u (h @ [cm]) key s1 = (Inr canon, s2)"
      "generationLoop P 0 u key (orchestratorContext st canon (h @ [cm])) [] s2 = (Inr resp, s3)"
      "extractLocation P resp key s3 = (ex, s4)"
      "createMessage ''assistant'' resp (Some (orElse ex (lastLocation h))) s4 = (sv, s5)"
      "handleRequest P u h ck s = (Inr resp, s5)"
    by blast
  then show ?thesis
  proof cases
    case rag
    from smartRag_quiet [OF rag(1)] have "stored_messages s2 = stored_messages s1"
      by (simp add: quiet_messages)
    with rag(2) m1 cm show ?thesis by simp
  next
    case gen
    from smartRag_quiet [OF gen(1)] have "stored_messages s2 = stored_messages s1"
      by (simp add: quiet_messages)
    moreover from generationLoop_frame [OF gen(2)]
    have "stored_messages s3 = stored_messages s2" by (simp add: sameStore_def)
    ultimately show ?thesis using gen(3) m1 cm by simp
  next
    case ok
    from smartRag_quiet [OF ok(1)]
    have "stored_messages s2 = stored_messages s1" "nextId s2 = nextId s1"
      by (simp_all add: quiet_messages)
    moreover from generationLoop_frame [OF ok(2)]
    have "stored_messages s3 = stored_messages s2" "nextId s3 = nextId s2"
      by (simp_all add: sameStore_def)
    moreover from extractLocation_quiet [OF ok(3)]
    have "stored_messages s4 = stored_messages s3" "nextId s4 = nextId s3"
      by (simp_all add: quiet_messages)
    moreover from createMessage_frame [OF ok(4)]
    have "stored_messages s5 = stored_messages s4 @ [sv]"
      "sv = \<lparr>msg_id = nextId s4, role = ''assistant'', content = resp,
              location = Some (orElse ex (lastLocation h))\<rparr>" by simp_all
    ultimately show ?thesis using ok(5) m1 cm n1 by simp
  qed
qed

lemma handleRequest_attempts:
  "generationAttempts (snd (handleRequest P u h ck s)) \<le> generationAttempts s + 2"
proof (cases "getSettings s")
  case None
  then show ?thesis by (simp add: handleRequest_def)
next
  case (Some st)
  define key where "key = orElse (if truthy ck then ck else geminiApiKey st) []"
  show ?thesis
  proof (cases "truthy (if truthy ck then ck else geminiApiKey st)")
    case False
    with Some show ?thesis by (simp add: handleRequest_def Let_def)
  next
    case True
    obtain cm s1 where c: "createMessage ''user'' u (Some (lastLocation h)) s = (cm, s1)"
      by (cases "createMessage ''user'' u (Some (lastLocation h)) s")
    from createMessage_frame [OF c]
    have a1: "generationAttempts s1 = generationAttempts s" by simp
    obtain r2 s2 where rag: "smartRagHandleRequest P key u (h @ [cm]) key s1 = (r2, s2)"
      by (cases "smartRagHandleRequest P key u (h @ [cm]) key s1")
    have a2: "generationAttempts s2 = generationAttempts s1"
      using smartRag_quiet [OF rag] by (simp add: quiet_def)
    show ?thesis
    proof (cases r2)
      case (Inl e)
      with Some True c rag a1 a2 show ?thesis
        by (simp add: handleRequest_def Let_def key_def [symmetric])
    next
      case (Inr canon)
      obtain r3 s3 where lp:
        "generationLoop P 0 u key (orchestratorContext st canon (h @ [cm])) [] s2 = (r3, s3)"
        by (cases "generationLoop P 0 u key (orchestratorContext st canon (h @ [cm])) [] s2")
      from generationLoop_frame [OF lp]
      have a3: "generationAttempts s3 \<le> generationAttempts s2 + 2"
        by (simp add: MAX_RETRIES_def)
      show ?thesis
      proof (cases r3)
        case (Inl e)
        with Some True c rag \<open>r2 = Inr canon\<close> lp a1 a2 a3 show ?thesis
          by (simp add: handleRequest_def Let_def key_def [symmetric])
      next
        case (Inr resp)
        obtain ex s4 where el: "extractLocation P resp key s3 = (ex, s4)"
          by (cases "extractLocation P resp key s3")
        from extractLocation_quiet [OF el]
        have a4: "generationAttempts s4 = generationAttempts s3" by (simp add: quiet_def)
        obtain sv s5 where fin:
          "createMessage ''assistant'' resp (Some (orElse ex (lastLocation h))) s4 = (sv, s5)"
          by (cases "createMessage ''assistant'' resp (Some (orElse ex (lastLocation h))) s4")
        from createMessage_frame [OF fin]
        have a5: "generationAttempts s5 = generationAttempts s4" by simp
        with Some True c rag \<open>r2 = Inr canon\<close> lp Inr el fin a1 a2 a3 a4 show ?thesis
          by (simp add: handleRequest_def Let_def key_def [symmetric])
      qed
    qed
  qed
qed

section \<open>Running the model on concrete inputs\<close>

lemmas string_defs = nl_def isSpace_def isLineTerminator_def
  trimStart_def trim_def sliceLast_def truthy_def orElse_def

lemmas double_defs = textReply_def providerDown_def nextScripted_def scriptedProvider_def
  skyProvider_def demoSettings_def demoState_def

lemmas storage_defs = getSettings_def getAllMessages_def createMessage_def createMemoryLog_def
  callEmbed_def callGenerate_def

lemmas query_defs = resolveKey_def getEmbedding_def getEmbeddingsAll_def dotProduct_def
  magnitude_def cosineSimilarity_def SIMILARITY_THRESHOLD_def rankBySimilarity_def
  semanticSearch_def mergeSemantic_def queryMessages_def List.map_filter_def

lemmas agent_defs = buildFilteringPrompt_def filterContext_def smartRagHandleRequest_def
  SAFETY_SENTINEL_def NO_TEXT_APOLOGY_def buildSystemInstruction_def buildContents_def
  generationCatch_def generateStoryResponse_def buildReviewPrompt_def stripNonCompliant_def
  NO_FEEDBACK_def reviewResponse_def LOCATION_LABEL_def explicitMatch_def
  buildLocationPrompt_def inferLocation_def extractLocation_def MAX_RETRIES_def
  correctiveNote_def lastLocation_def orchestratorContext_def

lemma keywordSearch_walk:
  "keywordSearch ''I walk north.''
     [\<lparr>msg_id = 0, role = ''user'', content = ''I walk north.'', location = Some ''Unknown''\<rparr>]
   = [\<lparr>msg_id = 0, role = ''user'', content = ''I walk north.'', location = Some ''Unknown''\<rparr>]"
  by code_simp


section \<open>ProofreaderAgent: a failed review is a compliant verdict\<close>

text \<open>
  C7. If the reviewer's provider call fails (the request is rejected, or reading the
  text of the answer throws), \<open>reviewResponse\<close> returns the verdict
  \<open>isCompliant = true\<close> with no feedback; and then, inside the orchestrator's loop,
  the text that was just generated is the one the loop returns.
\<close>

theorem reviewResponse_failure_is_compliant:
  assumes "fst (generateContent P apiKey ''gemini-2.5-pro''
                  (Prompt (buildReviewPrompt userMessage response)) (world s)) = Inl err
           \<or> (\<exists>r. fst (generateContent P apiKey ''gemini-2.5-pro''
                        (Prompt (buildReviewPrompt userMessage response)) (world s)) = Inr r
                  \<and> responseText r = Inl err)"
  shows "fst (reviewResponse P response apiKey userMessage s)
           = \<lparr>isCompliant = True, feedback = None\<rparr>
         \<and> (\<forall>i ctx r0 s0.
               i < MAX_RETRIES
               \<and> generateStoryResponse P userMessage ctx (Some apiKey) s0 = (Inr response, s)
               \<longrightarrow> fst (generationLoop P i userMessage apiKey ctx r0 s0) = Inr response)"
proof -
  have verdict: "fst (reviewResponse P response apiKey userMessage s)
                   = \<lparr>isCompliant = True, feedback = None\<rparr>"
    using assms
    by (auto simp: reviewResponse_def callGenerate_def Let_def split: prod.splits sum.splits)
  have "fst (generationLoop P i userMessage apiKey ctx r0 s0) = Inr response"
    if "i < MAX_RETRIES"
      and "generateStoryResponse P userMessage ctx (Some apiKey) s0 = (Inr response, s)"
    for i ctx r0 s0
    using that verdict
    by (subst generationLoop.simps) (auto split: prod.splits)
  with verdict show ?thesis by blast
qed

theorem reviewResponse_failure_is_compliant_witness:
  "fst (reviewResponse scriptedProvider ''You walk on.'' ''k'' ''I walk.''
          (snd (generateStoryResponse scriptedProvider ''I walk.''
                  (orchestratorContext demoSettings [] []) (Some ''k'')
                  (demoState [] [textReply ''You walk on.'']))))
     = \<lparr>isCompliant = True, feedback = None\<rparr>
   \<and> fst (generationLoop scriptedProvider 0 ''I walk.'' ''k''
             (orchestratorContext demoSettings [] []) []
             (demoState [] [textReply ''You walk on.''])) = Inr ''You walk on.''"
proof -
  let ?ctx = "orchestratorContext demoSettings [] []"
  let ?s0 = "demoState [] [textReply ''You walk on.'']"
  let ?g = "generateStoryResponse scriptedProvider ''I walk.'' ?ctx (Some ''k'') ?s0"
  note defs = string_defs double_defs storage_defs agent_defs Let_def prod_eq_iff
  have gen: "?g = (Inr ''You walk on.'', snd ?g)"
    by (simp add: defs)
  have down: "fst (generateContent scriptedProvider ''k'' ''gemini-2.5-pro''
                     (Prompt (buildReviewPrompt ''I walk.'' ''You walk on.'')) (world (snd ?g)))
                = Inl (Error ''provider unavailable'' False)"
    by (simp add: defs)
  have first: "(0::nat) < MAX_RETRIES" by (simp add: MAX_RETRIES_def)
  from reviewResponse_failure_is_compliant
         [of scriptedProvider "''k''" "''I walk.''" "''You walk on.''" "snd ?g"
             "Error ''provider unavailable'' False"]
       down gen first
  show ?thesis by blast
qed

section \<open>SmartRagAgent: nothing to filter, and no handler around the provider\<close>

text \<open>
  C8. With an empty list of retrieved turns \<open>filterContext\<close> returns the empty string
  and leaves the state as it was: no provider call is made. With a non-empty list it
  makes exactly one call, and an error of that call (or of reading the answer's
  text) is the result of \<open>filterContext\<close>: it is not caught and not retried.
\<close>

theorem filterContext_empty_or_propagates:
  "filterContext P k u [] h s = (Inr [], s)
   \<and> (ms \<noteq> []
        \<and> (fst (generateContent P k ''gemini-2.5-pro''
                   (Prompt (buildFilteringPrompt u ms h)) (world s)) = Inl e
            \<or> (\<exists>r. fst (generateContent P k ''gemini-2.5-pro''
                          (Prompt (buildFilteringPrompt u ms h)) (world s)) = Inr r
                    \<and> responseText r = Inl e))
      \<longrightarrow> fst (filterContext P k u ms h s) = Inl e
          \<and> calls (snd (filterContext P k u ms h s))
              = calls s @ [GenerateCall k ''gemini-2.5-pro''
                             (Prompt (buildFilteringPrompt u ms h))])"
  by (auto simp: filterContext_def callGenerate_def Let_def split: prod.splits sum.splits)

theorem filterContext_empty_or_propagates_witness:
  "filterContext scriptedProvider ''k'' ''I walk.'' [] [] (demoState [] [])
     = (Inr [], demoState [] [])
   \<and> fst (filterContext scriptedProvider ''k'' ''I walk.''
             [\<lparr>msg_id = 0, role = ''user'', content = ''I walk.'', location = None\<rparr>] []
             (demoState [] []))
       = Inl (Error ''provider unavailable'' False)"
  using filterContext_empty_or_propagates
          [of scriptedProvider "''k''" "''I walk.''" "[]" "demoState [] []"
              "[\<lparr>msg_id = 0, role = ''user'', content = ''I walk.'', location = None\<rparr>]"
              "Error ''provider unavailable'' False"]
  by (simp add: scriptedProvider_def nextScripted_def demoState_def providerDown_def)

section \<open>Orchestrator: two attempts at most, and the last one is kept\<close>

text \<open>
  C1. Whatever the providers answer, \<open>handleRequest\<close> makes at most two calls of the
  generation model. When the request reaches the loop and both attempts are generated
  and judged non-compliant, \<open>handleRequest\<close> returns the text of the second attempt,
  which is not empty, and the turns stored are the user turn followed by an assistant
  turn with that text; exactly two attempts were made.
\<close>

theorem orchestrator_two_attempts:
  "generationAttempts (snd (handleRequest P u h ck s)) \<le> generationAttempts s + 2
   \<and> (getSettings s = Some st
        \<and> truthy (if truthy ck then ck else geminiApiKey st)
        \<and> key = orElse (if truthy ck then ck else geminiApiKey st) []
        \<and> createMessage ''user'' u (Some (lastLocation h)) s = (cm, s1)
        \<and> smartRagHandleRequest P key u (h @ [cm]) key s1 = (Inr canon, s2)
        \<and> ctx = orchestratorContext st canon (h @ [cm])
        \<and> generateStoryResponse P u ctx (Some key) s2 = (Inr g1, s3)
        \<and> reviewResponse P g1 key u s3 = (v1, s4) \<and> \<not> isCompliant v1
        \<and> generateStoryResponse P u
              (ctx\<lparr>conversationHistory := conversationHistory ctx
                      @ [(''model'', g1), (''user'', correctiveNote (feedback v1))]\<rparr>)
              (Some key) s4 = (Inr g2, s5)
        \<and> reviewResponse P g2 key u s5 = (v2, s6) \<and> \<not> isCompliant v2
      \<longrightarrow> fst (handleRequest P u h ck s) = Inr g2
          \<and> g2 \<noteq> []
          \<and> (\<exists>loc. stored_messages (snd (handleRequest P u h ck s))
                      = stored_messages s
                        @ [cm, \<lparr>msg_id = Suc (nextId s), role = ''assistant'', content = g2,
                                location = Some loc\<rparr>])
          \<and> generationAttempts (snd (handleRequest P u h ck s)) = generationAttempts s + 2)"
proof (intro conjI impI)
  show "generationAttempts (snd (handleRequest P u h ck s)) \<le> generationAttempts s + 2"
    by (rule handleRequest_attempts)
next
  assume run: "getSettings s = Some st
        \<and> truthy (if truthy ck then ck else geminiApiKey st)
        \<and> key = orElse (if truthy ck then ck else geminiApiKey st) []
        \<and> createMessage ''user'' u (Some (lastLocation h)) s = (cm, s1)
        \<and> smartRagHandleRequest P key u (h @ [cm]) key s1 = (Inr canon, s2)
        \<and> ctx = orchestratorContext st canon (h @ [cm])
        \<and> generateStoryResponse P u ctx (Some key) s2 = (Inr g1, s3)
        \<and> reviewResponse P g1 key u s3 = (v1, s4) \<and> \<not> isCompliant v1
        \<and> generateStoryResponse P u
              (ctx\<lparr>conversationHistory := conversationHistory ctx
                      @ [(''model'', g1), (''user'', correctiveNote (feedback v1))]\<rparr>)
              (Some key) s4 = (Inr g2, s5)
        \<and> reviewResponse P g2 key u s5 = (v2, s6) \<and> \<not> isCompliant v2"
  then have st: "getSettings s = Some st"
    and tk: "truthy (if truthy ck then ck else geminiApiKey st)"
    and key: "key = orElse (if truthy ck then ck else geminiApiKey st) []"
    and c: "createMessage ''user'' u (Some (lastLocation h)) s = (cm, s1)"
    and rag: "smartRagHandleRequest P key u (h @ [cm]) key s1 = (Inr canon, s2)"
    and ctx: "ctx = orchestratorContext st canon (h @ [cm])"
    and gen1: "generateStoryResponse P u ctx (Some key) s2 = (Inr g1, s3)"
    and rev1: "reviewResponse P g1 key u s3 = (v1, s4)" and bad1: "\<not> isCompliant v1"
    and gen2: "generateStoryResponse P u
              (ctx\<lparr>conversationHistory := conversationHistory ctx
                      @ [(''model'', g1), (''user'', correctiveNote (feedback v1))]\<rparr>)
              (Some key) s4 = (Inr g2, s5)"
    and rev2: "reviewResponse P g2 key u s5 = (v2, s6)" and bad2: "\<not> isCompliant v2"
    by blast+
  have lp: "generationLoop P 0 u key (orchestratorContext st canon (h @ [cm])) [] s2
              = (Inr g2, s6)"
    using loop_two_noncompliant [OF gen1 rev1 bad1 gen2 rev2 bad2] ctx by simp
  from handleRequest_run [OF st tk key c, of P] rag lp
  obtain ex s7 sv s8 where el: "extractLocation P g2 key s6 = (ex, s7)"
    and fin: "createMessage ''assistant'' g2 (Some (orElse ex (lastLocation h))) s7 = (sv, s8)"
    and res: "handleRequest P u h ck s = (Inr g2, s8)"
    by auto
  show "fst (handleRequest P u h ck s) = Inr g2" using res by simp
  show "g2 \<noteq> []" using gen2 by (rule generateStoryResponse_nonempty)
  have cm: "cm = \<lparr>msg_id = nextId s, role = ''user'', content = u,
                   location = Some (lastLocation h)\<rparr>"
    using createMessage_frame [OF c] by simp
  from handleRequest_storage [OF st tk, of P u h "undefined" g2] res cm
  show "\<exists>loc. stored_messages (snd (handleRequest P u h ck s))
                      = stored_messages s
                        @ [cm, \<lparr>msg_id = Suc (nextId s), role = ''assistant'', content = g2,
                                location = Some loc\<rparr>]"
    by simp
  have "generationAttempts s1 = generationAttempts s"
    using createMessage_frame [OF c] by simp
  moreover have "generationAttempts s2 = generationAttempts s1"
    using smartRag_quiet [OF rag] by (simp add: quiet_def)
  moreover have "generationAttempts s3 = Suc (generationAttempts s2)"
    using generateStoryResponse_frame [OF gen1] by simp
  moreover have "generationAttempts s4 = generationAttempts s3"
    using reviewResponse_quiet [OF rev1] by (simp add: quiet_def)
  moreover have "generationAttempts s5 = Suc (generationAttempts s4)"
    using generateStoryResponse_frame [OF gen2] by simp
  moreover have "generationAttempts s6 = generationAttempts s5"
    using reviewResponse_quiet [OF rev2] by (simp add: quiet_def)
  moreover have "generationAttempts s7 = generationAttempts s6"
    using extractLocation_quiet [OF el] by (simp add: quiet_def)
  moreover have "generationAttempts s8 = generationAttempts s7"
    using createMessage_frame [OF fin] by simp
  ultimately show "generationAttempts (snd (handleRequest P u h ck s))
                     = generationAttempts s + 2"
    using res by simp
qed

theorem orchestrator_two_attempts_witness:
  "fst (handleRequest scriptedProvider ''I walk north.'' [] None (demoState [] twoRejections))
     = Inr ''You walk north.''
   \<and> stored_messages (snd (handleRequest scriptedProvider ''I walk north.'' [] None
                             (demoState [] twoRejections)))
       = [\<lparr>msg_id = 0, role = ''user'', content = ''I walk north.'',
           location = Some ''Unknown''\<rparr>,
          \<lparr>msg_id = 1, role = ''assistant'', content = ''You walk north.'',
           location = Some ''Unknown''\<rparr>]
   \<and> generationAttempts (snd (handleRequest scriptedProvider ''I walk north.'' [] None
                                (demoState [] twoRejections))) = 2"
proof -
  let ?u = "''I walk north.''"
  let ?s0 = "demoState [] twoRejections"
  let ?c = "createMessage ''user'' ?u (Some (lastLocation [])) ?s0"
  let ?rag = "smartRagHandleRequest scriptedProvider ''k'' ?u ([] @ [fst ?c]) ''k'' (snd ?c)"
  let ?ctx = "orchestratorContext demoSettings [] ([] @ [fst ?c])"
  let ?g1 = "generateStoryResponse scriptedProvider ?u ?ctx (Some ''k'') (snd ?rag)"
  let ?t1 = "''Night falls. You wake at dawn.''"
  let ?r1 = "reviewResponse scriptedProvider ?t1 ''k'' ?u (snd ?g1)"
  let ?ctx1 = "?ctx\<lparr>conversationHistory := conversationHistory ?ctx
                  @ [(''model'', ?t1), (''user'', correctiveNote (feedback (fst ?r1)))]\<rparr>"
  let ?g2 = "generateStoryResponse scriptedProvider ?u ?ctx1 (Some ''k'') (snd ?r1)"
  let ?t2 = "''You walk north.''"
  let ?r2 = "reviewResponse scriptedProvider ?t2 ''k'' ?u (snd ?g2)"
  note defs = string_defs double_defs storage_defs query_defs agent_defs Let_def
    keywordSearch_walk twoRejections_def prod_eq_iff
  have h1: "getSettings ?s0 = Some demoSettings
            \<and> truthy (if truthy None then None else geminiApiKey demoSettings)
            \<and> ''k'' = orElse (if truthy None then None else geminiApiKey demoSettings) []
            \<and> ?c = (fst ?c, snd ?c)"
    by (simp add: defs)
  have h2: "?rag = (Inr [], snd ?rag)"
    by (simp add: defs)
  have h3: "?g1 = (Inr ?t1, snd ?g1)"
    by (simp add: defs)
  have h4: "?r1 = (fst ?r1, snd ?r1) \<and> \<not> isCompliant (fst ?r1)"
    by (simp add: defs)
  have h5: "?g2 = (Inr ?t2, snd ?g2)"
    by (simp add: defs)
  have h6: "?r2 = (fst ?r2, snd ?r2) \<and> \<not> isCompliant (fst ?r2)"
    by (simp add: defs)
  from orchestrator_two_attempts
         [where P = scriptedProvider and u = ?u and h = "[]" and ck = None and s = ?s0
            and st = demoSettings and key = "''k''" and cm = "fst ?c" and ?s1.0 = "snd ?c"
            and canon = "[]" and ?s2.0 = "snd ?rag" and ctx = ?ctx and ?g1.0 = ?t1
            and ?s3.0 = "snd ?g1" and ?v1.0 = "fst ?r1" and ?s4.0 = "snd ?r1"
            and ?g2.0 = ?t2 and ?s5.0 = "snd ?g2" and ?v2.0 = "fst ?r2" and ?s6.0 = "snd ?r2"]
       h1 h2 h3 h4 h5 h6
  have main: "fst (handleRequest scriptedProvider ?u [] None ?s0) = Inr ?t2
              \<and> generationAttempts (snd (handleRequest scriptedProvider ?u [] None ?s0))
                  = generationAttempts ?s0 + 2"
    by blast
  have stored: "stored_messages (snd (handleRequest scriptedProvider ?u [] None ?s0))
       = [\<lparr>msg_id = 0, role = ''user'', content = ''I walk north.'',
           location = Some ''Unknown''\<rparr>,
          \<lparr>msg_id = 1, role = ''assistant'', content = ''You walk north.'',
           location = Some ''Unknown''\<rparr>]"
    by (simp add: defs handleRequest_def generationLoop.simps)
  have "generationAttempts ?s0 = 0"
    by (simp add: generationAttempts_def demoState_def)
  with main stored show ?thesis by simp
qed

section \<open>Orchestrator: the user turn is stored before anything can fail\<close>

text \<open>
  C10. Once the settings and the key are there, the user turn is stored before any
  provider is called. If \<open>handleRequest\<close> then ends with an error (thrown by a later
  stage), the stored turns are the previous ones followed by the user turn alone: no
  assistant turn, and the user turn is not rolled back. If it ends with a response,
  the user turn and the assistant turn carrying that response are both stored.
\<close>

theorem user_turn_outlives_failure:
  assumes "getSettings s = Some st"
    and "truthy (if truthy ck then ck else geminiApiKey st)"
  shows "(fst (handleRequest P u h ck s) = Inl e \<longrightarrow>
            stored_messages (snd (handleRequest P u h ck s))
              = stored_messages s
                @ [\<lparr>msg_id = nextId s, role = ''user'', content = u,
                    location = Some (lastLocation h)\<rparr>])
       \<and> (fst (handleRequest P u h ck s) = Inr r \<longrightarrow>
            (\<exists>loc. stored_messages (snd (handleRequest P u h ck s))
              = stored_messages s
                @ [\<lparr>msg_id = nextId s, role = ''user'', content = u,
                    location = Some (lastLocation h)\<rparr>,
                   \<lparr>msg_id = Suc (nextId s), role = ''assistant'', content = r,
                    location = Some loc\<rparr>]))"
  using assms by (rule handleRequest_storage)

theorem user_turn_outlives_failure_witness:
  "getSettings (demoState [] [] :: (error + gen_response) list state) = Some demoSettings
   \<and> truthy (if truthy None then None else geminiApiKey demoSettings)
   \<and> fst (handleRequest scriptedProvider ''I walk north.'' [] None (demoState [] []))
       = Inl (Error ''provider unavailable'' False)
   \<and> stored_messages (snd (handleRequest scriptedProvider ''I walk north.'' [] None
                             (demoState [] [])))
       = [\<lparr>msg_id = 0, role = ''user'', content = ''I walk north.'',
           location = Some ''Unknown''\<rparr>]"
proof -
  have fails: "fst (handleRequest scriptedProvider ''I walk north.'' [] None (demoState [] []))
                 = Inl (Error ''provider unavailable'' False)"
    by (simp add: handleRequest_def string_defs double_defs storage_defs query_defs agent_defs
          Let_def keywordSearch_walk)
  have guards: "getSettings (demoState [] [] :: (error + gen_response) list state)
                  = Some demoSettings
                \<and> truthy (if truthy None then None else geminiApiKey demoSettings)"
    by (simp add: getSettings_def demoState_def demoSettings_def truthy_def)
  from user_turn_outlives_failure
         [of "demoState [] []" demoSettings None scriptedProvider "''I walk north.''" "[]"
             "Error ''provider unavailable'' False" "[]"]
       guards fails
  show ?thesis by (simp add: demoState_def lastLocation_def)
qed

section \<open>Orchestrator: the location of the scene\<close>


















section \<open>QueryAgent: what the two stages return\<close>

subsection \<open>The keyword stage\<close>

lemma update_fresh: "k \<notin> fst ` set ps \<Longrightarrow> AList.update k v ps = ps @ [(k, v)]"
  by (induction ps) auto

lemma addUnique_eq:
  "addUnique m u = (if msg_id m \<in> fst ` set u then u else u @ [(msg_id m, m)])"
  by (auto simp: addUnique_def update_fresh map_of_eq_None_iff)

lemma addUnique_keyed: "keyedById u \<Longrightarrow> keyedById (addUnique m u)"
  by (auto simp: addUnique_eq keyedById_def)

lemma fold_addUnique_keyed: "keyedById u \<Longrightarrow> keyedById (fold addUnique ms u)"
  by (induction ms arbitrary: u) (auto simp: addUnique_keyed)

lemma fold_addUnique_values:
  "snd ` set (fold addUnique ms u) \<subseteq> snd ` set u \<union> set ms"
proof (induction ms arbitrary: u)
  case Nil
  show ?case by simp
next
  case (Cons m ms)
  have "snd ` set (addUnique m u) \<subseteq> snd ` set u \<union> {m}"
    by (auto simp: addUnique_eq)
  with Cons [of "addUnique m u"] show ?case by auto
qed

lemma fold_addUnique_length: "length (fold addUnique ms u) \<le> length u + length ms"
proof (induction ms arbitrary: u)
  case Nil
  show ?case by simp
next
  case (Cons m ms)
  have "length (addUnique m u) \<le> Suc (length u)" by (simp add: addUnique_eq)
  with Cons [of "addUnique m u"] show ?case by simp
qed

lemma collect_keyed:
  "keyedById u \<Longrightarrow> keyedById (fold (\<lambda>(keyword, matches) u. fold addUnique matches u) akm u)"
  by (induction akm arbitrary: u) (auto simp: fold_addUnique_keyed)

lemma collect_values:
  "snd ` set (fold (\<lambda>(keyword, matches) u. fold addUnique matches u) akm u)
     \<subseteq> snd ` set u \<union> (\<Union>p \<in> set akm. set (snd p))"
proof (induction akm arbitrary: u)
  case Nil
  show ?case by simp
next
  case (Cons p akm)
  obtain k ms where p: "p = (k, ms)" by (cases p)
  from Cons [of "fold addUnique ms u"] fold_addUnique_values [of ms u] p
  show ?case by auto
qed

lemma collect_length:
  "(\<forall>p \<in> set akm. length (snd p) \<le> n)
     \<Longrightarrow> length (fold (\<lambda>(keyword, matches) u. fold addUnique matches u) akm u)
           \<le> length u + n * length akm"
proof (induction akm arbitrary: u)
  case Nil
  show ?case by simp
next
  case (Cons p akm)
  obtain k ms where p: "p = (k, ms)" by (cases p)
  from Cons.prems p have "length ms \<le> n" by simp
  with fold_addUnique_length [of ms u]
  have "length (fold addUnique ms u) \<le> length u + n" by simp
  moreover from Cons.IH [of "fold addUnique ms u"] Cons.prems
  have "length (fold (\<lambda>(keyword, matches) u. fold addUnique matches u) akm
                  (fold addUnique ms u))
          \<le> length (fold addUnique ms u) + n * length akm" by simp
  ultimately show ?case using p by simp
qed

lemma update_length: "length (AList.update k v ps) \<le> Suc (length ps)"
  by (induction ps) auto

lemma update_values: "snd ` set (AList.update k v ps) \<subseteq> insert v (snd ` set ps)"
  by (induction ps) auto

lemma matches_table_length:
  "length (fold (\<lambda>keyword acc. AList.update keyword (f keyword) acc) ks acc)
     \<le> length acc + length ks"
proof (induction ks arbitrary: acc)
  case Nil
  show ?case by simp
next
  case (Cons k ks)
  from Cons [of "AList.update k (f k) acc"] update_length [of k "f k" acc]
  show ?case by simp
qed

lemma matches_table_values:
  "snd ` set (fold (\<lambda>keyword acc. AList.update keyword (f keyword) acc) ks acc)
     \<subseteq> snd ` set acc \<union> f ` set ks"
proof (induction ks arbitrary: acc)
  case Nil
  show ?case by simp
next
  case (Cons k ks)
  from Cons [of "AList.update k (f k) acc"] update_values [of k "f k" acc]
  show ?case by auto
qed

lemma keywordMatches_subset: "set (keywordMatches n ms k) \<subseteq> set ms"
  by (auto simp: keywordMatches_def Let_def dest: in_set_takeD)

lemma keywordMatches_length: "length (keywordMatches n ms k) \<le> n"
  by (simp add: keywordMatches_def Let_def)

lemma keywordSearch_distinct: "distinct (map msg_id (keywordSearch q ms))"
proof (cases "length (extractKeywords q) = 0")
  case True
  then show ?thesis by (simp add: keywordSearch_def Let_def)
next
  case False
  define lim :: nat where "lim = (if length (extractKeywords q) < 5 then 15 else 10)"
  define akm where "akm = fold (\<lambda>keyword acc.
      AList.update keyword (keywordMatches lim ms keyword) acc) (extractKeywords q) []"
  define u where "u = fold (\<lambda>(keyword, matches) u. fold addUnique matches u) akm []"
  have res: "keywordSearch q ms = map snd u"
    using False by (simp add: keywordSearch_def Let_def u_def akm_def lim_def)
  have "keyedById u" unfolding u_def by (rule collect_keyed) (simp add: keyedById_def)
  then have eq: "map (msg_id \<circ> snd) u = map fst u" and d: "distinct (map fst u)"
    by (simp_all add: keyedById_def)
  from d have "distinct (map (msg_id \<circ> snd) u)" unfolding eq .
  then show ?thesis unfolding res by simp
qed

lemma keywordSearch_subset: "set (keywordSearch q ms) \<subseteq> set ms"
proof (cases "length (extractKeywords q) = 0")
  case True
  then show ?thesis by (simp add: keywordSearch_def Let_def)
next
  case False
  define lim :: nat where "lim = (if length (extractKeywords q) < 5 then 15 else 10)"
  define akm where "akm = fold (\<lambda>keyword acc.
      AList.update keyword (keywordMatches lim ms keyword) acc) (extractKeywords q) []"
  define u where "u = fold (\<lambda>(keyword, matches) u. fold addUnique matches u) akm []"
  have res: "keywordSearch q ms = map snd u"
    using False by (simp add: keywordSearch_def Let_def u_def akm_def lim_def)
  have tab: "snd ` set akm \<subseteq> keywordMatches lim ms ` set (extractKeywords q)"
    unfolding akm_def using matches_table_values [of "keywordMatches lim ms" _ "[]"] by simp
  have "\<forall>p \<in> set akm. set (snd p) \<subseteq> set ms"
  proof
    fix p assume "p \<in> set akm"
    with tab obtain k where "snd p = keywordMatches lim ms k" by auto
    then show "set (snd p) \<subseteq> set ms" by (simp add: keywordMatches_subset)
  qed
  moreover have "snd ` set u \<subseteq> (\<Union>p \<in> set akm. set (snd p))"
    unfolding u_def using collect_values [of akm "[]"] by simp
  ultimately have "snd ` set u \<subseteq> set ms" by blast
  with res show ?thesis by simp
qed

lemma keywordSearch_length:
  "length (keywordSearch q ms)
     \<le> (if length (extractKeywords q) < 5 then 15 else 10) * length (extractKeywords q)"
proof (cases "length (extractKeywords q) = 0")
  case True
  then show ?thesis by (simp add: keywordSearch_def Let_def)
next
  case False
  define lim :: nat where "lim = (if length (extractKeywords q) < 5 then 15 else 10)"
  define akm where "akm = fold (\<lambda>keyword acc.
      AList.update keyword (keywordMatches lim ms keyword) acc) (extractKeywords q) []"
  define u where "u = fold (\<lambda>(keyword, matches) u. fold addUnique matches u) akm []"
  have res: "keywordSearch q ms = map snd u"
    using False by (simp add: keywordSearch_def Let_def u_def akm_def lim_def)
  have tab: "snd ` set akm \<subseteq> keywordMatches lim ms ` set (extractKeywords q)"
    unfolding akm_def using matches_table_values [of "keywordMatches lim ms" _ "[]"] by simp
  have "\<forall>p \<in> set akm. length (snd p) \<le> lim"
  proof
    fix p assume "p \<in> set akm"
    with tab obtain k where "snd p = keywordMatches lim ms k" by auto
    then show "length (snd p) \<le> lim" by (simp add: keywordMatches_length)
  qed
  from collect_length [OF this, of "[]"] have "length u \<le> lim * length akm"
    by (simp add: u_def)
  moreover have "length akm \<le> length (extractKeywords q)"
    unfolding akm_def using matches_table_length [of "keywordMatches lim ms" _ "[]"] by simp
  ultimately have "length u \<le> lim * length (extractKeywords q)"
    using mult_le_mono2 [of "length akm" "length (extractKeywords q)" lim] by linarith
  with res show ?thesis by (simp add: lim_def)
qed


subsection \<open>Every hit of a keyword is in the result\<close>

lemma matches_table_lookup:
  "map_of (fold (\<lambda>keyword acc. AList.update keyword (f keyword) acc) ks acc) k
     = (if k \<in> set ks then Some (f k) else map_of acc k)"
  by (induction ks arbitrary: acc) (auto simp: update_conv')

lemma fold_addUnique_keys: "fst ` set (fold addUnique ms u) = fst ` set u \<union> msg_id ` set ms"
proof (induction ms arbitrary: u)
  case Nil
  show ?case by simp
next
  case (Cons m ms)
  have "fst ` set (addUnique m u) = insert (msg_id m) (fst ` set u)"
    by (auto simp: addUnique_eq)
  with Cons [of "addUnique m u"] show ?case by auto
qed

lemma collect_keys:
  "fst ` set (fold (\<lambda>(keyword, matches) u. fold addUnique matches u) akm u)
     = fst ` set u \<union> msg_id ` (\<Union>p \<in> set akm. set (snd p))"
proof (induction akm arbitrary: u)
  case Nil
  show ?case by simp
next
  case (Cons p akm)
  obtain k ms where p: "p = (k, ms)" by (cases p)
  from Cons [of "fold addUnique ms u"] fold_addUnique_keys [of ms u] p
  show ?case by auto
qed

lemma keywordSearch_covers:
  assumes d: "distinct (map msg_id ms)"
    and k: "k \<in> set (extractKeywords q)"
    and hit: "m \<in> set (keywordMatches (if length (extractKeywords q) < 5 then 15 else 10) ms k)"
  shows "m \<in> set (keywordSearch q ms)"
proof -
  define lim :: nat where "lim = (if length (extractKeywords q) < 5 then 15 else 10)"
  define akm where "akm = fold (\<lambda>keyword acc.
      AList.update keyword (keywordMatches lim ms keyword) acc) (extractKeywords q) []"
  define u where "u = fold (\<lambda>(keyword, matches) u. fold addUnique matches u) akm []"
  from k have ne: "length (extractKeywords q) \<noteq> 0" by auto
  have res: "keywordSearch q ms = map snd u"
    using ne by (simp add: keywordSearch_def Let_def u_def akm_def lim_def)
  have "map_of akm k = Some (keywordMatches lim ms k)"
    unfolding akm_def using k by (simp add: matches_table_lookup)
  then have "(k, keywordMatches lim ms k) \<in> set akm" by (rule map_of_SomeD)
  with hit have "m \<in> (\<Union>p \<in> set akm. set (snd p))"
    unfolding lim_def by force
  then have "msg_id m \<in> fst ` set u"
    unfolding u_def by (simp add: collect_keys)
  then obtain p where p: "p \<in> set u" "fst p = msg_id m" by auto
  have "keyedById u" unfolding u_def by (rule collect_keyed) (simp add: keyedById_def)
  with p have same: "msg_id (snd p) = msg_id m" by (simp add: keyedById_def)
  have "snd p \<in> set (keywordSearch q ms)" using p res by simp
  then have "snd p \<in> set ms" using keywordSearch_subset by blast
  moreover have "m \<in> set ms" using hit keywordMatches_subset by blast
  moreover from d have "inj_on msg_id (set ms)" by (simp add: distinct_map)
  ultimately have "snd p = m" using same by (simp add: inj_on_def)
  with \<open>snd p \<in> set (keywordSearch q ms)\<close> show ?thesis by simp
qed

subsection \<open>The semantic stage\<close>

lemma map_filter_fst:
  assumes "\<And>m v p. g (m, v) = Some p \<Longrightarrow> fst p = m"
  shows "distinct (map fst xs) \<Longrightarrow> distinct (map fst (List.map_filter g xs))
         \<and> fst ` set (List.map_filter g xs) \<subseteq> fst ` set xs"
proof (induction xs)
  case Nil
  show ?case by (simp add: List.map_filter_simps)
next
  case (Cons x xs)
  obtain m v where x: "x = (m, v)" by (cases x)
  show ?case
  proof (cases "g x")
    case None
    with Cons show ?thesis by (auto simp: List.map_filter_simps)
  next
    case (Some p)
    with assms x have "fst p = m" by simp
    with Cons Some x show ?thesis by (auto simp: List.map_filter_simps)
  qed
qed

lemma distinct_map_sort_key:
  assumes "distinct (map h xs)"
  shows "distinct (map h (sort_key f xs))"
proof -
  have "card (set (map h (sort_key f xs))) = card (set (map h xs))" by simp
  also have "\<dots> = length (map h xs)" using assms by (rule distinct_card)
  also have "\<dots> = length (map h (sort_key f xs))" by simp
  finally show ?thesis by (rule card_distinct)
qed

lemma rankBySimilarity_distinct:
  assumes "distinct (map fst sims)"
  shows "distinct (rankBySimilarity sims) \<and> set (rankBySimilarity sims) \<subseteq> fst ` set sims"
proof -
  let ?g = "\<lambda>(m, sim). case sim of None \<Rightarrow> None
              | Some v \<Rightarrow> if v > SIMILARITY_THRESHOLD then Some (m, v :: real) else None"
  have "\<And>m v p. ?g (m, v) = Some p \<Longrightarrow> fst p = m"
    by (auto split: option.splits if_splits)
  from map_filter_fst [of ?g, OF this assms]
  have d: "distinct (map fst (List.map_filter ?g sims))"
    and s: "fst ` set (List.map_filter ?g sims) \<subseteq> fst ` set sims" by simp_all
  from d have "distinct (map fst (sort_key (\<lambda>(m, v). - v) (List.map_filter ?g sims)))"
    by (rule distinct_map_sort_key)
  with s show ?thesis by (simp add: rankBySimilarity_def)
qed

lemma semanticSearch_distinct:
  assumes "distinct ms"
  shows "distinct (fst (semanticSearch P k q ms s))
         \<and> set (fst (semanticSearch P k q ms s)) \<subseteq> set ms"
proof -
  have rank: "distinct (take 15 (rankBySimilarity
                  (map (\<lambda>(m, emb). (m, cosineSimilarity qe emb)) (zip ms embs))))
              \<and> set (take 15 (rankBySimilarity
                  (map (\<lambda>(m, emb). (m, cosineSimilarity qe emb)) (zip ms embs)))) \<subseteq> set ms"
    for qe embs
  proof -
    let ?sims = "map (\<lambda>(m, emb). (m, cosineSimilarity qe emb)) (zip ms embs)"
    have "map fst ?sims = map fst (zip ms embs)"
      by (simp add: case_prod_unfold comp_def)
    then have f: "map fst ?sims = take (min (length ms) (length embs)) ms"
      by (simp add: map_fst_zip_take)
    with assms have "distinct (map fst ?sims)" by simp
    from rankBySimilarity_distinct [OF this]
    have "distinct (rankBySimilarity ?sims)" "set (rankBySimilarity ?sims) \<subseteq> fst ` set ?sims"
      by simp_all
    moreover have "fst ` set ?sims \<subseteq> set ms"
      using f by (metis set_map set_take_subset)
    ultimately show ?thesis
      by (meson distinct_take set_take_subset subset_trans)
  qed
  show ?thesis
    using rank
    by (auto simp: semanticSearch_def Let_def split: prod.splits sum.splits)
qed

lemma semanticSearch_failure:
  assumes "fst (getEmbedding P q k s) = Inl e
           \<or> (\<exists>v. fst (getEmbedding P q k s) = Inr v
                  \<and> fst (getEmbeddingsAll P k (map content ms) (snd (getEmbedding P q k s)))
                      = Inl e)"
  shows "fst (semanticSearch P k q ms s) = []"
  using assms by (auto simp: semanticSearch_def Let_def split: prod.splits sum.splits)

subsection \<open>The merge\<close>

lemma fold_push:
  "fold (\<lambda>m acc. if keep m then acc @ [m] else acc) xs acc = acc @ filter keep xs"
  by (induction xs arbitrary: acc) auto

lemma mergeSemantic_eq:
  "mergeSemantic kw sem = kw @ filter (\<lambda>m. msg_id m \<notin> msg_id ` set kw) sem"
  by (simp add: mergeSemantic_def Let_def fold_push)

lemma queryMessages_eq:
  "fst (queryMessages P q k s)
     = take 100 (mergeSemantic (keywordSearch q (getAllMessages s))
                   (fst (semanticSearch P (resolveKey (Some k) s) q (getAllMessages s) s)))"
proof (cases "getAllMessages s = []")
  case True
  have "keywordSearch q [] = []" using keywordSearch_subset [of q "[]"] by simp
  moreover have "fst (semanticSearch P (resolveKey (Some k) s) q [] s) = []"
    using semanticSearch_distinct [of "[]" P "resolveKey (Some k) s" q s] by simp
  ultimately show ?thesis using True
    by (simp add: queryMessages_def Let_def mergeSemantic_eq)
next
  case False
  then show ?thesis
    by (simp add: queryMessages_def Let_def split: prod.splits)
qed


lemma ids_distinct_on_subset:
  assumes "distinct (map msg_id ms)" and "distinct xs" and "set xs \<subseteq> set ms"
  shows "distinct (map msg_id xs)"
proof -
  from assms(1) have "inj_on msg_id (set ms)" by (simp add: distinct_map)
  from this assms(3) have "inj_on msg_id (set xs)" by (rule inj_on_subset)
  with assms(2) show ?thesis by (simp add: distinct_map)
qed

lemma merge_distinct:
  assumes kw: "distinct (map msg_id kw)" and sem: "distinct (map msg_id sem)"
  shows "distinct (map msg_id (mergeSemantic kw sem))"
proof -
  let ?F = "filter (\<lambda>m. msg_id m \<notin> msg_id ` set kw) sem"
  from sem have "distinct (map msg_id ?F)" by (rule distinct_map_filter)
  moreover have "set (map msg_id kw) \<inter> set (map msg_id ?F) = {}"
    by auto (metis imageI)
  ultimately show ?thesis using kw by (simp add: mergeSemantic_eq)
qed

subsection \<open>The two corpora\<close>

lemma keywordSearch_sky:
  "keywordSearch ''What color is the sky?'' skyCorpus = [skyCorpus ! 1, skyCorpus ! 0]"
  by code_simp

lemma semanticSearch_sky:
  "fst (semanticSearch skyProvider (resolveKey (Some ''k'') skyState)
          ''What color is the sky?'' skyCorpus skyState)
     = [skyCorpus ! 0, skyCorpus ! 2]"
  by (simp add: skyState_def skyCorpus_def string_defs double_defs storage_defs query_defs
        Let_def)

lemma queryMessages_sky:
  "fst (queryMessages skyProvider ''What color is the sky?'' ''k'' skyState)
     = [skyCorpus ! 1, skyCorpus ! 0, skyCorpus ! 2]"
proof -
  let ?s = "skyState"
  have ms: "getAllMessages ?s = skyCorpus" by (simp add: getAllMessages_def demoState_def skyState_def bigState_def)
  have "take 100 (mergeSemantic [skyCorpus ! 1, skyCorpus ! 0] [skyCorpus ! 0, skyCorpus ! 2])
          = [skyCorpus ! 1, skyCorpus ! 0, skyCorpus ! 2]"
    by (simp add: mergeSemantic_eq skyCorpus_def)
  then show ?thesis
    unfolding queryMessages_eq ms keywordSearch_sky semanticSearch_sky .
qed

lemma eleven_keywords: "extractKeywords elevenQuery = elevenWords"
  by code_simp

lemma eleven_lower: "list_all (\<lambda>w. toLowerCase w = w) elevenWords"
  by code_simp

lemma bigCorpus_words: "list_all (\<lambda>m. content m \<in> set elevenWords) bigCorpus"
  by code_simp

lemma bigCorpus_hits:
  "list_all (\<lambda>k. length (filter (\<lambda>m. includesStr (content m) k) bigCorpus) \<le> 10) elevenWords"
  by code_simp

lemma bigCorpus_hit:
  "list_all (\<lambda>m. list_ex (\<lambda>k. includesStr (content m) k) elevenWords) bigCorpus"
  by code_simp

lemma bigCorpus_ids: "map msg_id bigCorpus = [0 ..< 110]"
  by (simp add: bigCorpus_def comp_def)

lemma bigCorpus_all_found: "length (keywordSearch elevenQuery bigCorpus) = 110"
proof -
  have d: "distinct (map msg_id bigCorpus)" by (simp add: bigCorpus_ids)
  have lim: "(if length elevenWords < 5 then 15 else 10) = (10::nat)"
    by (simp add: elevenWords_def)
  have low_w: "toLowerCase k = k" if "k \<in> set elevenWords" for k
    using eleven_lower that by (simp add: list_all_iff)
  have low_m: "toLowerCase (content m) = content m" if "m \<in> set bigCorpus" for m
    using bigCorpus_words that low_w by (simp add: list_all_iff)
  have filt: "filter (\<lambda>m. includesStr (toLowerCase (content m)) (toLowerCase k)) bigCorpus
                = filter (\<lambda>m. includesStr (content m) k) bigCorpus"
    if "k \<in> set elevenWords" for k
    using that low_w low_m by (intro filter_cong) simp_all
  have sub: "set bigCorpus \<subseteq> set (keywordSearch elevenQuery bigCorpus)"
  proof
    fix m assume m: "m \<in> set bigCorpus"
    with bigCorpus_hit obtain k where k: "k \<in> set elevenWords" "includesStr (content m) k"
      by (auto simp: list_all_iff list_ex_iff)
    from k(1) bigCorpus_hits
    have short: "length (filter (\<lambda>m. includesStr (content m) k) bigCorpus) \<le> 10"
      by (simp add: list_all_iff)
    have "m \<in> set (keywordMatches 10 bigCorpus k)"
      using m k short by (simp add: keywordMatches_def Let_def filt)
    with d k(1) show "m \<in> set (keywordSearch elevenQuery bigCorpus)"
      using keywordSearch_covers [of bigCorpus k elevenQuery m]
      by (simp add: lim eleven_keywords)
  qed
  with keywordSearch_subset [of elevenQuery bigCorpus]
  have eq: "set (keywordSearch elevenQuery bigCorpus) = set bigCorpus" by blast
  have "distinct (keywordSearch elevenQuery bigCorpus)"
    using keywordSearch_distinct [of elevenQuery bigCorpus] by (simp add: distinct_map)
  then have "length (keywordSearch elevenQuery bigCorpus)
               = card (set (keywordSearch elevenQuery bigCorpus))"
    by (simp add: distinct_card)
  also have "\<dots> = card (set bigCorpus)" by (simp add: eq)
  also have "\<dots> = length bigCorpus"
    using d by (simp add: distinct_card distinct_map)
  also have "\<dots> = 110" by (simp add: bigCorpus_def)
  finally show ?thesis .
qed


section \<open>QueryAgent: no duplicate ids, at most 100 turns\<close>

text \<open>
  Ids are handed out by \<open>createMessage\<close> from a counter, so the stored turns keep
  distinct ids; the stages that only call providers do not touch the store.
\<close>

lemma createMessage_invariant:
  "storageInvariant s \<Longrightarrow> storageInvariant (snd (createMessage r c loc s))"
  by (auto simp: storageInvariant_def createMessage_def Let_def)

lemma createMemoryLog_invariant:
  "storageInvariant s \<Longrightarrow> storageInvariant (snd (createMemoryLog c summ imp s))"
  by (auto simp: storageInvariant_def createMemoryLog_def Let_def)

lemma sameStore_invariant: "sameStore s s' \<Longrightarrow> storageInvariant s \<Longrightarrow> storageInvariant s'"
  by (simp add: storageInvariant_def sameStore_def)

text \<open>
  C2. When the stored turns have distinct ids, as the primary key of the table makes
  them, the list that \<open>queryMessages\<close> returns has no two turns with the same id and
  at most 100 turns, for every query, key and provider.
\<close>

theorem queryMessages_distinct_capped:
  assumes "distinct (map msg_id (getAllMessages s))"
  shows "distinct (map msg_id (fst (queryMessages P q k s)))
         \<and> length (fst (queryMessages P q k s)) \<le> 100"
proof -
  let ?ms = "getAllMessages s"
  let ?kw = "keywordSearch q ?ms"
  let ?sem = "fst (semanticSearch P (resolveKey (Some k) s) q ?ms s)"
  from assms have "distinct ?ms" by (simp add: distinct_map)
  then have "distinct ?sem" and "set ?sem \<subseteq> set ?ms"
    using semanticSearch_distinct [of ?ms P "resolveKey (Some k) s" q s] by simp_all
  with assms have "distinct (map msg_id ?sem)" by (rule ids_distinct_on_subset)
  with keywordSearch_distinct [of q ?ms]
  have "distinct (map msg_id (mergeSemantic ?kw ?sem))" by (rule merge_distinct)
  then have "distinct (take 100 (map msg_id (mergeSemantic ?kw ?sem)))"
    by (rule distinct_take)
  then show ?thesis by (simp add: queryMessages_eq take_map)
qed

theorem queryMessages_distinct_capped_witness:
  "distinct (map msg_id (getAllMessages skyState))
   \<and> distinct (map msg_id (fst (queryMessages skyProvider ''What color is the sky?'' ''k''
                                  skyState)))
   \<and> length (fst (queryMessages skyProvider ''What color is the sky?'' ''k''
                     skyState)) \<le> 100
   \<and> map msg_id (fst (queryMessages skyProvider ''What color is the sky?'' ''k''
                         skyState)) = [1, 0, 2]"
proof -
  let ?s = "skyState"
  have ms: "getAllMessages ?s = skyCorpus" by (simp add: getAllMessages_def demoState_def skyState_def bigState_def)
  have d: "distinct (map msg_id (getAllMessages ?s))"
    unfolding ms by (simp add: skyCorpus_def)
  have ids: "map msg_id (fst (queryMessages skyProvider ''What color is the sky?'' ''k'' ?s))
               = [1, 0, 2]"
    unfolding queryMessages_sky by (simp add: skyCorpus_def)
  from queryMessages_distinct_capped [OF d, of skyProvider "''What color is the sky?''" "''k''"]
       d ids
  show ?thesis by blast
qed

section \<open>QueryAgent: keyword results first\<close>

text \<open>
  C3. The result of \<open>queryMessages\<close> is the keyword results followed by the semantic
  results whose id is not among the ids of the keyword results, cut to the first 100.
  So in the result every turn of the keyword stage stands before every turn whose id
  the keyword stage did not produce.
\<close>

theorem keyword_results_come_first:
  assumes kw: "kw = keywordSearch q (getAllMessages s)"
    and sem: "sem = fst (semanticSearch P (resolveKey (Some k) s) q (getAllMessages s) s)"
    and res: "res = fst (queryMessages P q k s)"
  shows "res = take 100 (kw @ filter (\<lambda>m. msg_id m \<notin> msg_id ` set kw) sem)
         \<and> (\<forall>i j. i < length res \<and> j < length res
                   \<and> res ! i \<in> set kw \<and> msg_id (res ! j) \<notin> msg_id ` set kw
                \<longrightarrow> i < j)"
proof
  show eq: "res = take 100 (kw @ filter (\<lambda>m. msg_id m \<notin> msg_id ` set kw) sem)"
    unfolding res kw sem by (simp add: queryMessages_eq mergeSemantic_eq)
  let ?F = "filter (\<lambda>m. msg_id m \<notin> msg_id ` set kw) sem"
  show "\<forall>i j. i < length res \<and> j < length res
                   \<and> res ! i \<in> set kw \<and> msg_id (res ! j) \<notin> msg_id ` set kw
                \<longrightarrow> i < j"
  proof (intro allI impI)
    fix i j
    assume a: "i < length res \<and> j < length res
                   \<and> res ! i \<in> set kw \<and> msg_id (res ! j) \<notin> msg_id ` set kw"
    have at: "res ! n = (kw @ ?F) ! n" if "n < length res" for n
    proof -
      from that have "n < length (take 100 (kw @ ?F))" using eq by simp
      then have "n < 100" by simp
      then have "take 100 (kw @ ?F) ! n = (kw @ ?F) ! n" by (rule nth_take)
      with eq show ?thesis by simp
    qed
    have len: "length res \<le> length (kw @ ?F)" using eq by simp
    have "i < length kw"
    proof (rule ccontr)
      assume "\<not> i < length kw"
      with a at [of i] len have "res ! i = ?F ! (i - length kw)" and "i - length kw < length ?F"
        by (auto simp: nth_append)
      then have "res ! i \<in> set ?F" by (metis nth_mem)
      then have "msg_id (res ! i) \<notin> msg_id ` set kw" by simp
      with a show False by blast
    qed
    moreover have "length kw \<le> j"
    proof (rule ccontr)
      assume "\<not> length kw \<le> j"
      with a at [of j] have "res ! j = kw ! j" and "j < length kw"
        by (auto simp: nth_append)
      then have "res ! j \<in> set kw" by (metis nth_mem)
      with a show False by blast
    qed
    ultimately show "i < j" by simp
  qed
qed

theorem keyword_results_come_first_witness:
  "keywordSearch ''What color is the sky?'' skyCorpus = [skyCorpus ! 1, skyCorpus ! 0]
   \<and> fst (semanticSearch skyProvider (resolveKey (Some ''k'') skyState)
            ''What color is the sky?'' skyCorpus skyState)
       = [skyCorpus ! 0, skyCorpus ! 2]
   \<and> fst (queryMessages skyProvider ''What color is the sky?'' ''k'' skyState)
       = [skyCorpus ! 1, skyCorpus ! 0, skyCorpus ! 2]
   \<and> [skyCorpus ! 1, skyCorpus ! 0, skyCorpus ! 2] ! 1 \<in> set [skyCorpus ! 1, skyCorpus ! 0]
   \<and> msg_id ([skyCorpus ! 1, skyCorpus ! 0, skyCorpus ! 2] ! 2)
         \<notin> msg_id ` set [skyCorpus ! 1, skyCorpus ! 0]
   \<and> (1::nat) < 2"
proof -
  let ?s = "skyState"
  let ?q = "''What color is the sky?''"
  let ?kw = "[skyCorpus ! 1, skyCorpus ! 0]"
  let ?res = "[skyCorpus ! 1, skyCorpus ! 0, skyCorpus ! 2]"
  have ms: "getAllMessages ?s = skyCorpus" by (simp add: getAllMessages_def demoState_def skyState_def bigState_def)
  have kw: "?kw = keywordSearch ?q (getAllMessages ?s)"
    unfolding ms by (simp only: keywordSearch_sky)
  have sem: "[skyCorpus ! 0, skyCorpus ! 2]
               = fst (semanticSearch skyProvider (resolveKey (Some ''k'') ?s) ?q
                        (getAllMessages ?s) ?s)"
    unfolding ms by (simp only: semanticSearch_sky)
  have res: "?res = fst (queryMessages skyProvider ?q ''k'' ?s)"
    by (simp only: queryMessages_sky)
  have place: "1 < length ?res \<and> 2 < length ?res \<and> ?res ! 1 \<in> set ?kw
               \<and> msg_id (?res ! 2) \<notin> msg_id ` set ?kw"
    by (simp add: skyCorpus_def)
  from keyword_results_come_first [OF kw sem res] place have "(1::nat) < 2" by blast
  with kw sem res ms place show ?thesis by simp
qed

section \<open>QueryAgent: a failing embedding provider\<close>

text \<open>
  C6, as the code has it. If the embedding of the query or of a turn fails, the
  semantic stage returns the empty list and the result of \<open>queryMessages\<close> is the
  keyword result cut to its first 100 turns; it is the whole keyword result when the
  query has at most ten keywords. \<open>queryMessages\<close> returns a list in every case.
\<close>

theorem embedding_failure_keeps_keyword_results:
  assumes "fst (getEmbedding P q (resolveKey (Some k) s) s) = Inl e
           \<or> (\<exists>v. fst (getEmbedding P q (resolveKey (Some k) s) s) = Inr v
                  \<and> fst (getEmbeddingsAll P (resolveKey (Some k) s)
                            (map content (getAllMessages s))
                            (snd (getEmbedding P q (resolveKey (Some k) s) s))) = Inl e)"
  shows "fst (semanticSearch P (resolveKey (Some k) s) q (getAllMessages s) s) = []
         \<and> fst (queryMessages P q k s) = take 100 (keywordSearch q (getAllMessages s))
         \<and> (length (extractKeywords q) \<le> 10
              \<longrightarrow> fst (queryMessages P q k s) = keywordSearch q (getAllMessages s))"
proof -
  have none: "fst (semanticSearch P (resolveKey (Some k) s) q (getAllMessages s) s) = []"
    using assms by (rule semanticSearch_failure)
  then have cut: "fst (queryMessages P q k s) = take 100 (keywordSearch q (getAllMessages s))"
    by (simp add: queryMessages_eq mergeSemantic_eq)
  have "length (keywordSearch q (getAllMessages s)) \<le> 100"
    if "length (extractKeywords q) \<le> 10"
  proof -
    have "(if length (extractKeywords q) < 5 then 15 else 10) * length (extractKeywords q) \<le> 100"
      using that by (auto intro: order_trans [OF mult_le_mono2 [of _ 4 15]]
                                 order_trans [OF mult_le_mono2 [of _ 10 10]])
    with keywordSearch_length [of q "getAllMessages s"] show ?thesis by linarith
  qed
  with none cut show ?thesis by simp
qed


theorem embedding_failure_keeps_keyword_results_witness:
  "fst (getEmbedding scriptedProvider ''What color is the sky?''
          (resolveKey (Some ''k'') skyState) skyState)
     = Inl (Error ''provider unavailable'' False)
   \<and> length (extractKeywords ''What color is the sky?'') \<le> 10
   \<and> fst (queryMessages scriptedProvider ''What color is the sky?'' ''k''
             skyState)
       = [skyCorpus ! 1, skyCorpus ! 0]"
proof -
  let ?s = "skyState"
  let ?q = "''What color is the sky?''"
  have ms: "getAllMessages ?s = skyCorpus" by (simp add: getAllMessages_def demoState_def skyState_def bigState_def)
  have down: "fst (getEmbedding scriptedProvider ?q (resolveKey (Some ''k'') ?s) ?s)
                = Inl (Error ''provider unavailable'' False)"
    by (simp add: skyState_def bigState_def string_defs double_defs storage_defs query_defs
          Let_def)
  have few: "length (extractKeywords ?q) \<le> 10" by code_simp
  from embedding_failure_keeps_keyword_results
         [of scriptedProvider ?q "''k''" ?s "Error ''provider unavailable'' False"] down few
  have "fst (queryMessages scriptedProvider ?q ''k'' ?s) = keywordSearch ?q (getAllMessages ?s)"
    by blast
  with down few show ?thesis by (simp add: ms keywordSearch_sky)
qed


text \<open>
  C6, as the claim has it, fails: with eleven keywords that each match ten turns of
  their own, the keyword stage returns 110 turns and the result has 100, so the result
  is not the keyword result.
\<close>

theorem embedding_failure_counterexample:
  "fst (getEmbedding scriptedProvider elevenQuery
          (resolveKey (Some ''k'') bigState) bigState)
     = Inl (Error ''provider unavailable'' False)
   \<and> fst (queryMessages scriptedProvider elevenQuery ''k'' bigState)
       \<noteq> keywordSearch elevenQuery (getAllMessages bigState)"
proof -
  let ?s = "bigState"
  have ms: "getAllMessages ?s = bigCorpus" by (simp add: getAllMessages_def demoState_def skyState_def bigState_def)
  have down: "fst (getEmbedding scriptedProvider elevenQuery (resolveKey (Some ''k'') ?s) ?s)
                = Inl (Error ''provider unavailable'' False)"
    by (simp add: skyState_def bigState_def string_defs double_defs storage_defs query_defs
          Let_def)
  have "length (fst (queryMessages scriptedProvider elevenQuery ''k'' ?s)) \<le> 100"
    by (simp add: queryMessages_eq)
  moreover have "length (keywordSearch elevenQuery (getAllMessages ?s)) = 110"
    by (simp add: ms bigCorpus_all_found)
  ultimately have "fst (queryMessages scriptedProvider elevenQuery ''k'' ?s)
                     \<noteq> keywordSearch elevenQuery (getAllMessages ?s)"
    by auto
  with down show ?thesis by blast
qed

section \<open>The chat route: a memory log every fourth turn\<close>

lemma summarizeLoop_store: "summarizeLoop P a key t s = (r, s') \<Longrightarrow> sameStore s s'"
proof (induction P a key t s rule: summarizeLoop.induct)
  case (1 P attempt key t s)
  show ?case
  proof (cases "attempt \<le> maxRetries")
    case False
    with "1.prems" show ?thesis by (simp add: summarizeLoop.simps sameStore_def)
  next
    case True
    let ?req = "Contents [(''user'', ''Summarize this chat for memory:'' @ [nl, nl] @ t)]"
    obtain g s1 where call: "callGenerate P key ''gemini-2.5-flash'' ?req s = (g, s1)"
      by (cases "callGenerate P key ''gemini-2.5-flash'' ?req s")
    then have f1: "sameStore s s1"
      by (auto simp: callGenerate_def sameStore_def split: prod.splits)
    show ?thesis
    proof (cases g)
      case (Inl e)
      show ?thesis
      proof (cases "attempt = maxRetries")
        case True
        with "1.prems" \<open>attempt \<le> maxRetries\<close> call Inl f1 show ?thesis
          by (subst (asm) summarizeLoop.simps) simp
      next
        case False
        with "1.prems" \<open>attempt \<le> maxRetries\<close> call Inl
        have "summarizeLoop P (Suc attempt) key t s1 = (r, s')"
          by (subst (asm) summarizeLoop.simps) simp
        from "1.IH"(1) [OF \<open>attempt \<le> maxRetries\<close> call [symmetric] Inl False this]
        have "sameStore s1 s'" .
        with f1 show ?thesis by (simp add: sameStore_def)
      qed
    next
      case (Inr x)
      show ?thesis
      proof (cases "responseText x")
        case (Inr txt')
        with "1.prems" \<open>attempt \<le> maxRetries\<close> call \<open>g = Inr x\<close> f1 show ?thesis
          by (subst (asm) summarizeLoop.simps) (auto split: if_splits)
      next
        case (Inl e)
        show ?thesis
        proof (cases "attempt = maxRetries")
          case True
          with "1.prems" \<open>attempt \<le> maxRetries\<close> call Inr Inl f1 show ?thesis
            by (subst (asm) summarizeLoop.simps) simp
        next
          case False
          with "1.prems" \<open>attempt \<le> maxRetries\<close> call Inr Inl
          have "summarizeLoop P (Suc attempt) key t s1 = (r, s')"
            by (subst (asm) summarizeLoop.simps) simp
          from "1.IH"(2) [OF \<open>attempt \<le> maxRetries\<close> call [symmetric] Inr Inl False this]
          have "sameStore s1 s'" .
          with f1 show ?thesis by (simp add: sameStore_def)
        qed
      qed
    qed
  qed
qed


lemma summarizeForMemory_store: "summarizeForMemory P msgs k s = (r, s') \<Longrightarrow> sameStore s s'"
  by (auto simp: summarizeForMemory_def Let_def dest: summarizeLoop_store)

lemma consolidate_result:
  "stored_messages (consolidate P k s) = stored_messages s
   \<and> (if length (stored_messages s) mod 4 = 0 \<and> 0 < length (stored_messages s)
      then stored_memoryLogs (consolidate P k s)
             = stored_memoryLogs s
               @ [\<lparr>log_id = nextId s,
                   log_content = joinWith [nl] (map (\<lambda>m. role m @ '': '' @ content m)
                                                    (sliceLast 4 (stored_messages s))),
                   log_embedding = None, log_location = None,
                   log_summary = Some (fst (summarizeForMemory P
                                              (map content (sliceLast 4 (stored_messages s)))
                                              (Some k) s)),
                   log_type = None, importance = 5\<rparr>]
      else stored_memoryLogs (consolidate P k s) = stored_memoryLogs s)"
proof -
  obtain summ s1 where sm:
    "summarizeForMemory P (map content (sliceLast 4 (stored_messages s))) (Some k) s = (summ, s1)"
    by (cases "summarizeForMemory P (map content (sliceLast 4 (stored_messages s))) (Some k) s")
  from summarizeForMemory_store [OF sm] have "sameStore s s1" .
  with sm show ?thesis
    by (simp add: consolidate_def Let_def getAllMessages_def createMemoryLog_def sameStore_def)
qed

lemma quiet_store: "quiet s s' \<Longrightarrow> sameStore s s'"
  by (simp add: quiet_def)

lemma postChat_run:
  assumes req: "req = Some c" and tk: "truthy (routeKey s)"
    and key: "key = orElse (routeKey s) []"
    and c1: "createMessage ''user'' c None s = (um, s1)"
  shows "(\<exists>e s2. smartRagHandleRequest P key c (getAllMessages s1) key s1 = (Inl e, s2)
                 \<and> postChat P req s = (errorResponse e, s2))
       \<or> (\<exists>fc s2 e s3.
             smartRagHandleRequest P key c (getAllMessages s1) key s1 = (Inr fc, s2)
             \<and> generateStoryResponse P c (routeContext (getSettings s) fc (getAllMessages s1))
                  (Some key) s2 = (Inl e, s3)
             \<and> postChat P req s = (errorResponse e, s3))
       \<or> (\<exists>fc s2 ai s3 pr s4 am s5.
             smartRagHandleRequest P key c (getAllMessages s1) key s1 = (Inr fc, s2)
             \<and> generateStoryResponse P c (routeContext (getSettings s) fc (getAllMessages s1))
                  (Some key) s2 = (Inr ai, s3)
             \<and> reviewResponse P ai key c s3 = (pr, s4)
             \<and> createMessage ''assistant'' ai None s4 = (am, s5)
             \<and> postChat P req s = (Response 200 (MessageBody am), consolidate P key s5))"
proof -
  obtain r2 s2 where rag: "smartRagHandleRequest P key c (getAllMessages s1) key s1 = (r2, s2)"
    by (cases "smartRagHandleRequest P key c (getAllMessages s1) key s1")
  show ?thesis
  proof (cases r2)
    case (Inl e)
    with req tk c1 rag have "postChat P req s = (errorResponse e, s2)"
      by (simp add: postChat_def Let_def key [symmetric])
    with rag Inl show ?thesis by blast
  next
    case (Inr fc)
    let ?ctx = "routeContext (getSettings s) fc (getAllMessages s1)"
    obtain r3 s3 where gen: "generateStoryResponse P c ?ctx (Some key) s2 = (r3, s3)"
      by (cases "generateStoryResponse P c ?ctx (Some key) s2")
    show ?thesis
    proof (cases r3)
      case (Inl e)
      with req tk c1 rag \<open>r2 = Inr fc\<close> gen have "postChat P req s = (errorResponse e, s3)"
        by (simp add: postChat_def Let_def key [symmetric])
      with rag \<open>r2 = Inr fc\<close> gen Inl show ?thesis by blast
    next
      case (Inr ai)
      obtain pr s4 where rev: "reviewResponse P ai key c s3 = (pr, s4)"
        by (cases "reviewResponse P ai key c s3")
      obtain am s5 where c5: "createMessage ''assistant'' ai None s4 = (am, s5)"
        by (cases "createMessage ''assistant'' ai None s4")
      from req tk c1 rag \<open>r2 = Inr fc\<close> gen Inr rev c5
      have "postChat P req s = (Response 200 (MessageBody am), consolidate P key s5)"
        by (simp add: postChat_def Let_def key [symmetric])
      with rag \<open>r2 = Inr fc\<close> gen Inr rev c5 show ?thesis by blast
    qed
  qed
qed

lemma postChat_outcome:
  "(\<exists>c ai key s5.
      req = Some c
      \<and> fst (postChat P req s)
          = Response 200 (MessageBody \<lparr>msg_id = Suc (nextId s), role = ''assistant'',
                                        content = ai, location = None\<rparr>)
      \<and> snd (postChat P req s) = consolidate P key s5
      \<and> stored_messages s5
          = stored_messages s
            @ [\<lparr>msg_id = nextId s, role = ''user'', content = c, location = None\<rparr>,
               \<lparr>msg_id = Suc (nextId s), role = ''assistant'', content = ai,
                location = None\<rparr>]
      \<and> stored_memoryLogs s5 = stored_memoryLogs s \<and> nextId s5 = Suc (Suc (nextId s)))
   \<or> (status (fst (postChat P req s)) \<noteq> 200
       \<and> stored_memoryLogs (snd (postChat P req s)) = stored_memoryLogs s
       \<and> stored_messages (snd (postChat P req s))
           = (case req of
                None \<Rightarrow> stored_messages s
              | Some c \<Rightarrow>
                  if truthy (routeKey s)
                  then stored_messages s
                       @ [\<lparr>msg_id = nextId s, role = ''user'', content = c,
                           location = None\<rparr>]
                  else stored_messages s))"
proof (cases req)
  case None
  then show ?thesis by (simp add: postChat_def errorResponse_def)
next
  case (Some c)
  show ?thesis
  proof (cases "truthy (routeKey s)")
    case False
    with Some show ?thesis by (simp add: postChat_def Let_def)
  next
    case True
    define key where "key = orElse (routeKey s) []"
    obtain um s1 where c1: "createMessage ''user'' c None s = (um, s1)"
      by (cases "createMessage ''user'' c None s")
    have um: "um = \<lparr>msg_id = nextId s, role = ''user'', content = c, location = None\<rparr>"
      and m1: "stored_messages s1 = stored_messages s @ [um]"
      and l1: "stored_memoryLogs s1 = stored_memoryLogs s" and n1: "nextId s1 = Suc (nextId s)"
      using c1 by (auto simp: createMessage_def Let_def)
    from postChat_run [OF Some True key_def c1, of P]
    consider
      (rag) e s2 where "smartRagHandleRequest P key c (getAllMessages s1) key s1 = (Inl e, s2)"
        "postChat P req s = (errorResponse e, s2)"
    | (gen) fc s2 e s3 where
        "smartRagHandleRequest P key c (getAllMessages s1) key s1 = (Inr fc, s2)"
        "generateStoryResponse P c (routeContext (getSettings s) fc (getAllMessages s1))
           (Some key) s2 = (Inl e, s3)"
        "postChat P req s = (errorResponse e, s3)"
    | (ok) fc s2 ai s3 pr s4 am s5 where
        "smartRagHandleRequest P key c (getAllMessages s1) key s1 = (Inr fc, s2)"
        "generateStoryResponse P c (routeContext (getSettings s) fc (getAllMessages s1))
           (Some key) s2 = (Inr ai, s3)"
        "reviewResponse P ai key c s3 = (pr, s4)"
        "createMessage ''assistant'' ai None s4 = (am, s5)"
        "postChat P req s = (Response 200 (MessageBody am), consolidate P key s5)"
      by blast
    then show ?thesis
    proof cases
      case rag
      from smartRag_quiet [OF rag(1)] have "sameStore s1 s2" by (rule quiet_store)
      with rag(2) um m1 l1 Some True show ?thesis
        by (simp add: errorResponse_def sameStore_def)
    next
      case gen
      from smartRag_quiet [OF gen(1)] have "sameStore s1 s2" by (rule quiet_store)
      moreover from generateStoryResponse_frame [OF gen(2)] have "sameStore s2 s3" by simp
      ultimately show ?thesis using gen(3) um m1 l1 Some True
        by (simp add: errorResponse_def sameStore_def)
    next
      case ok
      from smartRag_quiet [OF ok(1)] have q2: "sameStore s1 s2" by (rule quiet_store)
      from generateStoryResponse_frame [OF ok(2)] have q3: "sameStore s2 s3" by simp
      from reviewResponse_quiet [OF ok(3)] have q4: "sameStore s3 s4" by (rule quiet_store)
      have am: "am = \<lparr>msg_id = nextId s4, role = ''assistant'', content = ai, location = None\<rparr>"
        and m5: "stored_messages s5 = stored_messages s4 @ [am]"
        and l5: "stored_memoryLogs s5 = stored_memoryLogs s4"
        and n5: "nextId s5 = Suc (nextId s4)"
        using ok(4) by (auto simp: createMessage_def Let_def)
      have n4: "nextId s4 = Suc (nextId s)"
        using n1 q2 q3 q4 by (simp add: sameStore_def)
      have "stored_messages s5 = stored_messages s @ [um, am]"
        using m1 m5 q2 q3 q4 by (simp add: sameStore_def)
      moreover have "stored_memoryLogs s5 = stored_memoryLogs s"
        using l1 l5 q2 q3 q4 by (simp add: sameStore_def)
      moreover have "nextId s5 = Suc (Suc (nextId s))" using n5 n4 by simp
      ultimately show ?thesis using ok(5) Some um am n4 by auto
    qed
  qed
qed

text \<open>
  C5, as the code has it. When the exchange completes (the route answers 200), the
  user turn and the assistant turn have been stored, and a memory log is created if
  and only if the number of stored turns is then a positive multiple of 4; its content
  is the transcript of the last four turns, one \<open>role: content\<close> line each, its
  summary is the result of \<open>summarizeForMemory\<close> on the contents of those four turns,
  and its importance is 5. When the route answers with an error, no memory log is
  created, whatever the number of stored turns.
\<close>

theorem memory_log_every_fourth_turn:
  "(status (fst (postChat P req s)) = 200 \<longrightarrow>
      (let s' = snd (postChat P req s);
           n = length (stored_messages s');
           lastFour = sliceLast 4 (stored_messages s')
       in (\<exists>c ai. req = Some c
             \<and> fst (postChat P req s)
                 = Response 200 (MessageBody \<lparr>msg_id = Suc (nextId s), role = ''assistant'',
                                               content = ai, location = None\<rparr>)
             \<and> stored_messages s'
                 = stored_messages s
                   @ [\<lparr>msg_id = nextId s, role = ''user'', content = c, location = None\<rparr>,
                      \<lparr>msg_id = Suc (nextId s), role = ''assistant'', content = ai,
                       location = None\<rparr>])
          \<and> (if n mod 4 = 0 \<and> 0 < n
             then \<exists>key sx.
                    stored_memoryLogs s'
                      = stored_memoryLogs s
                        @ [\<lparr>log_id = Suc (Suc (nextId s)),
                            log_content = joinWith [nl]
                              (map (\<lambda>m. role m @ '': '' @ content m) lastFour),
                            log_embedding = None, log_location = None,
                            log_summary = Some (fst (summarizeForMemory P
                                                       (map content lastFour) (Some key) sx)),
                            log_type = None, importance = 5\<rparr>]
             else stored_memoryLogs s' = stored_memoryLogs s)))
   \<and> (status (fst (postChat P req s)) \<noteq> 200 \<longrightarrow>
        stored_memoryLogs (snd (postChat P req s)) = stored_memoryLogs s)"
proof -
  from postChat_outcome [of req P s]
  consider
    (ok) c ai key s5 where "req = Some c"
      "fst (postChat P req s)
          = Response 200 (MessageBody \<lparr>msg_id = Suc (nextId s), role = ''assistant'',
                                        content = ai, location = None\<rparr>)"
      "snd (postChat P req s) = consolidate P key s5"
      "stored_messages s5
          = stored_messages s
            @ [\<lparr>msg_id = nextId s, role = ''user'', content = c, location = None\<rparr>,
               \<lparr>msg_id = Suc (nextId s), role = ''assistant'', content = ai,
                location = None\<rparr>]"
      "stored_memoryLogs s5 = stored_memoryLogs s" "nextId s5 = Suc (Suc (nextId s))"
  | (failed) "status (fst (postChat P req s)) \<noteq> 200"
      "stored_memoryLogs (snd (postChat P req s)) = stored_memoryLogs s"
    by blast
  then show ?thesis
  proof cases
    case ok
    have st: "status (fst (postChat P req s)) = 200" using ok(2) by simp
    from consolidate_result [of P key s5]
    have msgs: "stored_messages (consolidate P key s5) = stored_messages s5"
      and logs: "if length (stored_messages s5) mod 4 = 0 \<and> 0 < length (stored_messages s5)
        then stored_memoryLogs (consolidate P key s5)
             = stored_memoryLogs s5
               @ [\<lparr>log_id = nextId s5,
                   log_content = joinWith [nl] (map (\<lambda>m. role m @ '': '' @ content m)
                                                    (sliceLast 4 (stored_messages s5))),
                   log_embedding = None, log_location = None,
                   log_summary = Some (fst (summarizeForMemory P
                                              (map content (sliceLast 4 (stored_messages s5)))
                                              (Some key) s5)),
                   log_type = None, importance = 5\<rparr>]
        else stored_memoryLogs (consolidate P key s5) = stored_memoryLogs s5"
      by blast+
    show ?thesis
    proof (cases "length (stored_messages s5) mod 4 = 0 \<and> 0 < length (stored_messages s5)")
      case True
      with logs have "stored_memoryLogs (consolidate P key s5)
             = stored_memoryLogs s
               @ [\<lparr>log_id = Suc (Suc (nextId s)),
                   log_content = joinWith [nl] (map (\<lambda>m. role m @ '': '' @ content m)
                                                    (sliceLast 4 (stored_messages s5))),
                   log_embedding = None, log_location = None,
                   log_summary = Some (fst (summarizeForMemory P
                                              (map content (sliceLast 4 (stored_messages s5)))
                                              (Some key) s5)),
                   log_type = None, importance = 5\<rparr>]"
        using ok(5,6) by simp
      then have "\<exists>key' sx. stored_memoryLogs (consolidate P key s5)
             = stored_memoryLogs s
               @ [\<lparr>log_id = Suc (Suc (nextId s)),
                   log_content = joinWith [nl] (map (\<lambda>m. role m @ '': '' @ content m)
                                                    (sliceLast 4 (stored_messages s5))),
                   log_embedding = None, log_location = None,
                   log_summary = Some (fst (summarizeForMemory P
                                              (map content (sliceLast 4 (stored_messages s5)))
                                              (Some key') sx)),
                   log_type = None, importance = 5\<rparr>]"
        by blast
      with True st ok(1,2,3,4) msgs show ?thesis by (simp add: Let_def)
    next
      case False
      with logs have "stored_memoryLogs (consolidate P key s5) = stored_memoryLogs s"
        using ok(5) by simp
      with False st ok(1,2,3,4) msgs show ?thesis by (simp add: Let_def)
    qed
  next
    case failed
    then show ?thesis by simp
  qed
qed


subsection \<open>The route with a provider that is down, and with canned answers\<close>

lemma generateStoryResponse_down:
  "fst (generateStoryResponse downProvider u ctx k s)
     = Inl (Error ''Failed to generate response: provider unavailable'' False)"
  by (simp add: generateStoryResponse_def Let_def callGenerate_def downProvider_def
        providerDown_def generationCatch_def)

lemma postChat_down:
  fixes s :: "'w state"
  assumes "truthy (routeKey s)"
  shows "status (fst (postChat downProvider (Some c) s)) \<noteq> 200"
proof -
  let ?key = "orElse (routeKey s) []"
  obtain um s1 where c1: "createMessage ''user'' c None s = (um, s1)"
    by (cases "createMessage ''user'' c None s")
  from postChat_run [OF refl assms refl c1, of downProvider]
  consider
    (rag) e s2 where "postChat downProvider (Some c) s = (errorResponse e, s2)"
  | (gen) e s3 where "postChat downProvider (Some c) s = (errorResponse e, s3)"
  | (ok) fc s2 ai s3 where
      "generateStoryResponse downProvider c
         (routeContext (getSettings s) fc (getAllMessages s1)) (Some ?key) (s2 :: 'w state)
         = (Inr ai, s3)"
    by blast
  then show ?thesis
  proof cases
    case rag
    then show ?thesis by (simp add: errorResponse_def)
  next
    case gen
    then show ?thesis by (simp add: errorResponse_def)
  next
    case ok
    with generateStoryResponse_down
           [of c "routeContext (getSettings s) fc (getAllMessages s1)" "Some ?key" s2]
    show ?thesis by simp
  qed
qed

lemma filterContext_canned: "\<exists>t. fst (filterContext cannedProvider k u ms h s) = Inr t"
  by (simp add: filterContext_def Let_def callGenerate_def cannedProvider_def textReply_def)

lemma smartRag_canned:
  "k \<noteq> [] \<Longrightarrow> \<exists>t. fst (smartRagHandleRequest cannedProvider k u h k s) = Inr t"
proof -
  assume k: "k \<noteq> []"
  obtain r s1 where q: "queryMessages cannedProvider u k s = (r, s1)"
    by (cases "queryMessages cannedProvider u k s")
  from filterContext_canned [of k u r "sliceLast 5 h" s1] k q show ?thesis
    by (simp add: smartRagHandleRequest_def Let_def)
qed

lemma generateStoryResponse_canned:
  "fst (generateStoryResponse cannedProvider u ctx k s) = Inr ''You walk north.''"
  by (simp add: generateStoryResponse_def Let_def callGenerate_def cannedProvider_def
        textReply_def)

lemma summarizeForMemory_canned:
  "fst (summarizeForMemory cannedProvider msgs k s) = ''They travel north.''"
  by (simp add: summarizeForMemory_def Let_def summarizeLoop.simps maxRetries_def
        callGenerate_def cannedProvider_def textReply_def)

lemma truthy_orElse: "truthy v \<Longrightarrow> orElse v [] \<noteq> []"
  by (auto simp: truthy_def orElse_def split: option.splits)

lemma postChat_canned:
  fixes s :: "'w state"
  assumes "truthy (routeKey s)"
  shows "fst (postChat cannedProvider (Some c) s)
           = Response 200 (MessageBody \<lparr>msg_id = Suc (nextId s), role = ''assistant'',
                                         content = ''You walk north.'', location = None\<rparr>)"
proof -
  let ?key = "orElse (routeKey s) []"
  obtain um s1 where c1: "createMessage ''user'' c None s = (um, s1)"
    by (cases "createMessage ''user'' c None s")
  have n1: "nextId s1 = Suc (nextId s)" using c1 by (auto simp: createMessage_def Let_def)
  from assms have "?key \<noteq> []" by (rule truthy_orElse)
  from smartRag_canned [OF this, of c "getAllMessages s1" s1]
  obtain t where ragOk: "fst (smartRagHandleRequest cannedProvider ?key c (getAllMessages s1)
                                ?key s1) = Inr t" by blast
  from postChat_run [OF refl assms refl c1, of cannedProvider]
  consider
    (rag) e s2 where
      "smartRagHandleRequest cannedProvider ?key c (getAllMessages s1) ?key s1 = (Inl e, s2)"
  | (gen) fc s2 e s3 where
      "generateStoryResponse cannedProvider c
         (routeContext (getSettings s) fc (getAllMessages s1)) (Some ?key) (s2 :: 'w state)
         = (Inl e, s3)"
  | (ok) fc s2 ai s3 pr s4 am s5 where
      "smartRagHandleRequest cannedProvider ?key c (getAllMessages s1) ?key s1 = (Inr fc, s2)"
      "generateStoryResponse cannedProvider c
         (routeContext (getSettings s) fc (getAllMessages s1)) (Some ?key) s2 = (Inr ai, s3)"
      "reviewResponse cannedProvider ai ?key c s3 = (pr, s4)"
      "createMessage ''assistant'' ai None s4 = (am, s5)"
      "postChat cannedProvider (Some c) s
         = (Response 200 (MessageBody am), consolidate cannedProvider ?key s5)"
    by blast
  then obtain fc s2 ai s3 pr s4 am s5 where
      r: "smartRagHandleRequest cannedProvider ?key c (getAllMessages s1) ?key s1 = (Inr fc, s2)"
    and g: "generateStoryResponse cannedProvider c
              (routeContext (getSettings s) fc (getAllMessages s1)) (Some ?key) s2 = (Inr ai, s3)"
    and v: "reviewResponse cannedProvider ai ?key c s3 = (pr, s4)"
    and m: "createMessage ''assistant'' ai None s4 = (am, s5)"
    and res: "postChat cannedProvider (Some c) s
                = (Response 200 (MessageBody am), consolidate cannedProvider ?key s5)"
  proof cases
    case (rag e s2)
    with ragOk show ?thesis by simp
  next
    case (gen fc s2 e s3)
    with generateStoryResponse_canned
           [of c "routeContext (getSettings s) fc (getAllMessages s1)" "Some ?key" s2]
    show ?thesis by simp
  next
    case ok
    then show ?thesis using that by blast
  qed
  from g generateStoryResponse_canned
           [of c "routeContext (getSettings s) fc (getAllMessages s1)" "Some ?key" s2]
  have ai: "ai = ''You walk north.''" by simp
  from smartRag_quiet [OF r] have "nextId s2 = nextId s1" by (simp add: quiet_messages)
  moreover from generateStoryResponse_frame [OF g] have "nextId s3 = nextId s2"
    by (simp add: sameStore_def)
  moreover from reviewResponse_quiet [OF v] have "nextId s4 = nextId s3"
    by (simp add: quiet_messages)
  ultimately have "nextId s4 = Suc (nextId s)" using n1 by simp
  with m ai have "am = \<lparr>msg_id = Suc (nextId s), role = ''assistant'',
                         content = ''You walk north.'', location = None\<rparr>"
    by (auto simp: createMessage_def Let_def)
  with res show ?thesis by simp
qed


theorem memory_log_every_fourth_turn_witness:
  "status (fst (postChat cannedProvider (Some ''I follow the bird.'') twoState)) = 200
   \<and> length (stored_messages (snd (postChat cannedProvider (Some ''I follow the bird.'')
                                     twoState))) = 4
   \<and> stored_memoryLogs (snd (postChat cannedProvider (Some ''I follow the bird.'') twoState))
       = [\<lparr>log_id = 4,
           log_content = joinWith [nl]
             [''assistant: The sky is blue in the village.'', ''user: I look at the sky.'',
              ''user: I follow the bird.'', ''assistant: You walk north.''],
           log_embedding = None, log_location = None,
           log_summary = Some ''They travel north.'', log_type = None, importance = 5\<rparr>]"
proof -
  let ?r = "postChat cannedProvider (Some ''I follow the bird.'') twoState"
  have key: "truthy (routeKey twoState)"
    by (simp add: routeKey_def twoState_def demoState_def demoSettings_def getSettings_def
          truthy_def)
  have ok: "status (fst ?r) = 200" using postChat_canned [OF key] by simp
  have two: "stored_messages twoState = take 2 skyCorpus" "stored_memoryLogs twoState = []"
    "nextId twoState = 2"
    by (simp_all add: twoState_def demoState_def skyCorpus_def)
  note run = memory_log_every_fourth_turn
                [of cannedProvider "Some ''I follow the bird.''" twoState,
                 THEN conjunct1, THEN mp, OF ok, unfolded Let_def]
  from run have "\<exists>c ai. Some ''I follow the bird.'' = Some c
             \<and> fst ?r
                 = Response 200 (MessageBody \<lparr>msg_id = Suc (nextId twoState),
                                               role = ''assistant'',
                                               content = ai, location = None\<rparr>)
             \<and> stored_messages (snd ?r)
                 = stored_messages twoState
                   @ [\<lparr>msg_id = nextId twoState, role = ''user'', content = c,
                       location = None\<rparr>,
                      \<lparr>msg_id = Suc (nextId twoState), role = ''assistant'', content = ai,
                       location = None\<rparr>]"
    by (rule conjunct1)
  then obtain c ai where
      c: "Some ''I follow the bird.'' = Some c"
    and resp: "fst ?r = Response 200 (MessageBody \<lparr>msg_id = Suc (nextId twoState),
                          role = ''assistant'', content = ai, location = None\<rparr>)"
    and msgs0: "stored_messages (snd ?r)
         = stored_messages twoState
           @ [\<lparr>msg_id = nextId twoState, role = ''user'', content = c, location = None\<rparr>,
              \<lparr>msg_id = Suc (nextId twoState), role = ''assistant'', content = ai,
               location = None\<rparr>]"
    by blast
  from run have logs: "if length (stored_messages (snd ?r)) mod 4 = 0
                  \<and> 0 < length (stored_messages (snd ?r))
       then \<exists>key (sx :: unit state). stored_memoryLogs (snd ?r)
                      = stored_memoryLogs twoState
                        @ [\<lparr>log_id = Suc (Suc (nextId twoState)),
                            log_content = joinWith [nl]
                              (map (\<lambda>m. role m @ '': '' @ content m)
                                   (sliceLast 4 (stored_messages (snd ?r)))),
                            log_embedding = None, log_location = None,
                            log_summary = Some (fst (summarizeForMemory cannedProvider
                                (map content (sliceLast 4 (stored_messages (snd ?r))))
                                (Some key) sx)),
                            log_type = None, importance = 5\<rparr>]
       else stored_memoryLogs (snd ?r) = stored_memoryLogs twoState"
    by (rule conjunct2)
  from c have "c = ''I follow the bird.''" by simp
  with msgs0 have msgs: "stored_messages (snd ?r)
         = stored_messages twoState
           @ [\<lparr>msg_id = nextId twoState, role = ''user'', content = ''I follow the bird.'',
               location = None\<rparr>,
              \<lparr>msg_id = Suc (nextId twoState), role = ''assistant'', content = ai,
               location = None\<rparr>]"
    by simp
  from resp postChat_canned [OF key, of "''I follow the bird.''"]
  have ai: "ai = ''You walk north.''" by simp
  have all: "stored_messages (snd ?r)
         = [skyCorpus ! 0, skyCorpus ! 1,
            \<lparr>msg_id = 2, role = ''user'', content = ''I follow the bird.'', location = None\<rparr>,
            \<lparr>msg_id = 3, role = ''assistant'', content = ''You walk north.'',
             location = None\<rparr>]"
    unfolding msgs ai two by (simp add: skyCorpus_def)
  then have len: "length (stored_messages (snd ?r)) = 4" by simp
  with logs have "stored_memoryLogs (snd ?r)
                      = [\<lparr>log_id = 4,
                            log_content = joinWith [nl]
                              (map (\<lambda>m. role m @ '': '' @ content m)
                                   (sliceLast 4 (stored_messages (snd ?r)))),
                            log_embedding = None, log_location = None,
                            log_summary = Some ''They travel north.'',
                            log_type = None, importance = 5\<rparr>]"
    by (auto simp: two summarizeForMemory_canned)
  then show ?thesis using ok len
    unfolding all by (simp add: sliceLast_def skyCorpus_def)
qed


text \<open>
  C5, as the claim has it, fails: with three turns stored and the provider down, the
  user turn is stored and the route answers 500; four turns are stored after the
  exchange, a positive multiple of 4, and no memory log is created.
\<close>

theorem memory_log_failed_exchange_counterexample:
  "length (stored_messages (snd (postChat downProvider (Some ''I follow the bird.'')
                                   threeState))) = 4
   \<and> stored_memoryLogs (snd (postChat downProvider (Some ''I follow the bird.'') threeState))
       = stored_memoryLogs threeState"
proof -
  let ?r = "postChat downProvider (Some ''I follow the bird.'') threeState"
  have key: "truthy (routeKey threeState)"
    by (simp add: routeKey_def threeState_def demoState_def demoSettings_def getSettings_def
          truthy_def)
  from postChat_down [OF key] have bad: "status (fst ?r) \<noteq> 200" .
  with postChat_outcome [of "Some ''I follow the bird.''" downProvider threeState] key
  have "stored_memoryLogs (snd ?r) = stored_memoryLogs threeState"
    and "stored_messages (snd ?r)
           = stored_messages threeState
             @ [\<lparr>msg_id = nextId threeState, role = ''user'', content = ''I follow the bird.'',
                 location = None\<rparr>]"
    by auto
  moreover have "length (stored_messages threeState) = 3"
    by (simp add: threeState_def demoState_def skyCorpus_def)
  ultimately show ?thesis by simp
qed

section \<open>MemoryAgent: cosine similarity in exact arithmetic\<close>

text \<open>
  With the numbers read as reals, the similarity of two vectors of the same dimension
  is a number between -1 and 1, it is 0 when one of the magnitudes is 0 (which is when
  all the components are 0), and the similarity of a vector with itself is 1 when its
  magnitude is not 0. The source computes with doubles, whose products, sums, square
  roots and quotients are rounded and can underflow or overflow; these lemmas say
  nothing about that rounding.
\<close>

lemma squares_nonneg: "0 \<le> sum_list (map (\<lambda>x. x * x) (v :: real list))"
  by (induction v) auto

lemma cross_term:
  fixes s x y A B :: real
  assumes "s\<^sup>2 \<le> A * B" and "0 \<le> A" and "0 \<le> B"
  shows "2 * s * x * y \<le> A * y\<^sup>2 + B * x\<^sup>2"
proof -
  have "(s * x * y)\<^sup>2 = s\<^sup>2 * (x\<^sup>2 * y\<^sup>2)" by (simp add: power_mult_distrib)
  also have "\<dots> \<le> (A * B) * (x\<^sup>2 * y\<^sup>2)"
    using assms(1) by (intro mult_right_mono) simp_all
  also have "\<dots> = (A * y\<^sup>2) * (B * x\<^sup>2)" by simp
  finally have "sqrt ((s * x * y)\<^sup>2) \<le> sqrt ((A * y\<^sup>2) * (B * x\<^sup>2))"
    by (rule real_sqrt_le_mono)
  then have "\<bar>s * x * y\<bar> \<le> sqrt ((A * y\<^sup>2) * (B * x\<^sup>2))" by simp
  also have "\<dots> \<le> (A * y\<^sup>2 + B * x\<^sup>2) / 2"
    using assms(2,3) by (intro arith_geo_mean_sqrt) simp_all
  finally show ?thesis by (simp add: abs_le_iff)
qed

lemma cauchy_schwarz:
  "length a = length b
     \<Longrightarrow> (sum_list (map (\<lambda>(x, y). x * y) (zip a b)))\<^sup>2
         \<le> sum_list (map (\<lambda>x. x * x) a) * sum_list (map (\<lambda>x. x * x) (b :: real list))"
proof (induction a b rule: list_induct2)
  case Nil
  show ?case by simp
next
  case (Cons x xs y ys)
  let ?s = "sum_list (map (\<lambda>(x, y). x * y) (zip xs ys))"
  let ?A = "sum_list (map (\<lambda>x. x * x) xs)"
  let ?B = "sum_list (map (\<lambda>x. x * x) ys)"
  from cross_term [OF Cons.IH squares_nonneg squares_nonneg, of x y]
  have "2 * ?s * x * y \<le> ?A * y\<^sup>2 + ?B * x\<^sup>2" .
  with Cons.IH show ?case
    by (simp add: power2_eq_square algebra_simps)
qed


lemma magnitude_zero_iff: "magnitude v = 0 \<longleftrightarrow> (\<forall>x \<in> set v. x = 0)"
proof -
  have "sum_list (map (\<lambda>x. x * x) v) = 0 \<longleftrightarrow> (\<forall>x \<in> set v. x = 0)"
    by (induction v) (auto simp: add_nonneg_eq_0_iff squares_nonneg)
  then show ?thesis by (simp add: magnitude_def)
qed

lemma dot_le_magnitudes:
  assumes "length vecA = length vecB"
  shows "\<bar>sum_list (map (\<lambda>(a, b). a * b) (zip vecA vecB))\<bar> \<le> magnitude vecA * magnitude vecB"
proof -
  let ?d = "sum_list (map (\<lambda>(a, b). a * b) (zip vecA vecB))"
  from cauchy_schwarz [OF assms]
  have "sqrt (?d\<^sup>2) \<le> sqrt (sum_list (map (\<lambda>x. x * x) vecA) * sum_list (map (\<lambda>x. x * x) vecB))"
    by (rule real_sqrt_le_mono)
  then show ?thesis by (simp add: magnitude_def real_sqrt_mult)
qed

lemma cosineSimilarity_exact:
  assumes "length vecA = length vecB"
  shows "\<exists>r. cosineSimilarity vecA vecB = Some r \<and> - 1 \<le> r \<and> r \<le> 1
             \<and> (magnitude vecA = 0 \<or> magnitude vecB = 0 \<longrightarrow> r = 0)"
proof (cases "magnitude vecA = 0 \<or> magnitude vecB = 0")
  case True
  then show ?thesis by (auto simp: cosineSimilarity_def Let_def)
next
  case False
  let ?d = "sum_list (map (\<lambda>(a, b). a * b) (zip vecA vecB))"
  let ?m = "magnitude vecA * magnitude vecB"
  have "0 \<le> magnitude vecA" "0 \<le> magnitude vecB"
    by (simp_all add: magnitude_def squares_nonneg)
  with False have pos: "0 < ?m" by (simp add: less_le)
  from dot_le_magnitudes [OF assms] have "\<bar>?d\<bar> \<le> ?m" .
  then have "- ?m \<le> ?d" and "?d \<le> ?m" by linarith+
  with pos have "- 1 \<le> ?d / ?m \<and> ?d / ?m \<le> 1"
    by (simp add: pos_le_divide_eq pos_divide_le_eq)
  moreover have "cosineSimilarity vecA vecB = Some (?d / ?m)"
    using False assms by (simp add: cosineSimilarity_def dotProduct_def Let_def)
  ultimately show ?thesis using False by simp
qed

lemma cosineSimilarity_self_exact:
  assumes "magnitude v \<noteq> 0"
  shows "cosineSimilarity v v = Some 1"
proof -
  let ?A = "sum_list (map (\<lambda>x. x * x) v)"
  have d: "sum_list (map (\<lambda>(a, b). a * b) (zip v v)) = ?A"
    by (induction v) auto
  have "magnitude v * magnitude v = ?A"
    by (simp add: magnitude_def squares_nonneg)
  moreover from this assms have "?A \<noteq> 0" by auto
  ultimately show ?thesis
    using assms by (simp add: cosineSimilarity_def dotProduct_def Let_def d)
qed

end
